theory Spec2Isabelle
  imports Main "HOL-Library.Multiset" "HOL-Library.List_Lexorder" "HOL-Library.Product_Lexorder"
    "HOL-Library.Char_ord"
begin

section \<open>Retrying fetch client (src/utils.js, fetchWithRetry)\<close>

text \<open>
  One call of \<open>fetchWithTimeout\<close> either resolves with a response (HTTP status and body)
  or rejects (network error, or the abort raised by the timeout) with a message.
  The network is a function from the number of calls made so far to what the next call does.
\<close>

datatype 'b attempt = Responded nat 'b | Rejected string

text \<open>
  The value of \<open>lastError\<close>: \<open>NoError\<close> is JavaScript's \<open>undefined\<close> (its initial value),
  \<open>HttpError s\<close> is \<open>new Error(`HTTP ${s}: ...`)\<close>, \<open>FetchFailed m\<close> is the error a rejected
  fetch raised.
\<close>

datatype fetch_error = NoError | HttpError nat | FetchFailed string

text \<open>\<open>response.ok\<close>: the status is in the range 200..299.\<close>

definition ok :: "nat \<Rightarrow> bool" where
  "ok st = (200 \<le> st \<and> st \<le> 299)"

text \<open>
  What the body of the \<open>try\<close> block does with one attempt: it returns the response from
  the function, raises, or falls through having assigned \<open>lastError\<close>.
\<close>

datatype 'b try_result = Returned nat 'b | Raised fetch_error | Assigned fetch_error

definition tryBlock :: "'b attempt \<Rightarrow> 'b try_result" where
  "tryBlock a =
     (case a of
        Rejected m \<Rightarrow> Raised (FetchFailed m)
      | Responded st b \<Rightarrow>
          if ok st then Returned st b
          else if 400 \<le> st \<and> st < 500 \<and> st \<noteq> 429 then Raised (HttpError st)
          else Assigned (HttpError st))"

text \<open>The result of a run: what the promise settles with, the calls made, the delays slept.\<close>

record 'b fetch_run =
  outcome :: "fetch_error + (nat \<times> 'b)"
  attempts :: nat
  delays :: "nat list"

definition backoff :: "int \<Rightarrow> nat" where
  "backoff attempt = min (1000 * 2 ^ nat attempt) 5000"

text \<open>
  The \<open>for\<close> loop. The \<open>catch\<close> clause encloses the whole \<open>try\<close> block, so an error raised
  inside it (also the one raised for a 4xx status) is assigned to \<open>lastError\<close> and the loop
  goes on.
\<close>

function fetchLoop ::
  "(nat \<Rightarrow> 'b attempt) \<Rightarrow> int \<Rightarrow> int \<Rightarrow> fetch_error \<Rightarrow> nat \<Rightarrow> nat list \<Rightarrow> 'b fetch_run" where
  "fetchLoop net retries attempt lastError calls ds =
     (if attempt \<le> retries then
        (case tryBlock (net calls) of
           Returned st b \<Rightarrow> \<lparr>outcome = Inr (st, b), attempts = calls + 1, delays = ds\<rparr>
         | Raised e \<Rightarrow>
             fetchLoop net retries (attempt + 1) e (calls + 1)
               (if attempt < retries then ds @ [backoff attempt] else ds)
         | Assigned e \<Rightarrow>
             fetchLoop net retries (attempt + 1) e (calls + 1)
               (if attempt < retries then ds @ [backoff attempt] else ds))
      else \<lparr>outcome = Inl lastError, attempts = calls, delays = ds\<rparr>)"
  by pat_completeness auto
termination
  by (relation "measure (\<lambda>(net, retries, attempt, lastError, calls, ds). nat (retries + 1 - attempt))") auto

declare fetchLoop.simps [simp del]

definition fetchWithRetry :: "(nat \<Rightarrow> 'b attempt) \<Rightarrow> int \<Rightarrow> 'b fetch_run" where
  "fetchWithRetry net retries = fetchLoop net retries 0 NoError 0 []"

text \<open>A failure the policy means to retry: a rejection, a 5xx, a 429 (any status that is
  neither a success nor a 4xx other than 429).\<close>

definition retryable :: "'b attempt \<Rightarrow> bool" where
  "retryable a =
     (case a of
        Rejected m \<Rightarrow> True
      | Responded st b \<Rightarrow> \<not> ok st \<and> \<not> (400 \<le> st \<and> st < 500 \<and> st \<noteq> 429))"

text \<open>A server that answers 503, then times out, then serves the page.\<close>

definition flaky :: "nat \<Rightarrow> string attempt" where
  "flaky k = (if k = 0 then Responded 503 ''busy'' else if k = 1 then Rejected ''timeout'' else Responded 200 ''page'')"

section \<open>Strings\<close>

text \<open>
  A JavaScript string is modelled by the list of the bytes of its UTF-8 encoding. The
  operations the program applies (splitting at an ASCII character, testing a prefix or a
  suffix, concatenation) act alike on both representations.
\<close>

text \<open>\<open>s.split(c)\<close> for a one-character separator: never empty, \<open>''''.split(c) = ['''']\<close>.\<close>

fun splitOn :: "char \<Rightarrow> string \<Rightarrow> string list" where
  "splitOn c [] = [[]]"
| "splitOn c (x # xs) =
     (if x = c then [] # splitOn c xs
      else (case splitOn c xs of [] \<Rightarrow> [[x]] | p # ps \<Rightarrow> (x # p) # ps))"

text \<open>\<open>parts.join(sep)\<close>.\<close>

fun joinWith :: "string \<Rightarrow> string list \<Rightarrow> string" where
  "joinWith sep [] = []"
| "joinWith sep [p] = p"
| "joinWith sep (p # q # ps) = p @ sep @ joinWith sep (q # ps)"

text \<open>The elements of a list in the order of their first occurrence, as a \<open>Set\<close> keeps
  them.\<close>

definition uniq :: "'a list \<Rightarrow> 'a list" where
  "uniq xs = rev (remdups (rev xs))"

definition startsWith :: "string \<Rightarrow> string \<Rightarrow> bool" where
  "startsWith s p = (take (length p) s = p)"

definition endsWith :: "string \<Rightarrow> string \<Rightarrow> bool" where
  "endsWith s p = (length p \<le> length s \<and> drop (length s - length p) s = p)"

text \<open>\<open>s.replace(/\/$/, '')\<close> and \<open>s.replace(/^\//, '')\<close>: one slash is removed, if there.\<close>

definition stripTrailingSlash :: "string \<Rightarrow> string" where
  "stripTrailingSlash s = (if s \<noteq> [] \<and> last s = CHR ''/'' then butlast s else s)"

definition stripLeadingSlash :: "string \<Rightarrow> string" where
  "stripLeadingSlash s = (case s of [] \<Rightarrow> [] | c # cs \<Rightarrow> if c = CHR ''/'' then cs else s)"

definition isAlnum :: "char \<Rightarrow> bool" where
  "isAlnum c = ((CHR ''a'' \<le> c \<and> c \<le> CHR ''z'') \<or> (CHR ''A'' \<le> c \<and> c \<le> CHR ''Z'') \<or>
                (CHR ''0'' \<le> c \<and> c \<le> CHR ''9''))"

text \<open>
  \<open>/\.[a-z0-9]+$/i.test(s)\<close>: the string ends with a dot followed by one or more ASCII
  letters or digits.
\<close>

definition hasFileExtension :: "string \<Rightarrow> bool" where
  "hasFileExtension s =
     (let suffix = rev (takeWhile isAlnum (rev s));
          front = rev (dropWhile isAlnum (rev s))
      in suffix \<noteq> [] \<and> front \<noteq> [] \<and> last front = CHR ''.'')"

section \<open>URLSearchParams\<close>

definition isHexDigit :: "char \<Rightarrow> bool" where
  "isHexDigit c = ((CHR ''0'' \<le> c \<and> c \<le> CHR ''9'') \<or> (CHR ''a'' \<le> c \<and> c \<le> CHR ''f'') \<or>
                   (CHR ''A'' \<le> c \<and> c \<le> CHR ''F''))"

definition hexValue :: "char \<Rightarrow> nat" where
  "hexValue c =
     (if CHR ''0'' \<le> c \<and> c \<le> CHR ''9'' then of_char c - 48
      else if CHR ''a'' \<le> c \<and> c \<le> CHR ''f'' then of_char c - 87
      else of_char c - 55)"

text \<open>Percent-decoding of a byte sequence (URL standard): \<open>%XY\<close> with two hexadecimal
  digits is one byte, any other \<open>%\<close> stands for itself.\<close>

fun percentDecode :: "string \<Rightarrow> string" where
  "percentDecode [] = []"
| "percentDecode [c] = [c]"
| "percentDecode [c, d] = [c, d]"
| "percentDecode (c # h1 # h2 # cs) =
     (if c = CHR ''%'' \<and> isHexDigit h1 \<and> isHexDigit h2
      then char_of (16 * hexValue h1 + hexValue h2) # percentDecode cs
      else c # percentDecode (h1 # h2 # cs))"

text \<open>The replacement character U+FFFD, in UTF-8.\<close>

definition replacementChar :: string where
  "replacementChar = [CHR 0xEF, CHR 0xBF, CHR 0xBD]"

text \<open>
  UTF-8 decoding with replacement (Encoding standard), read on the byte model: a well-formed
  sequence is copied, every error yields U+FFFD, and a byte that ends a sequence early is
  read again as the start of the next one. \<open>needed\<close> counts the continuation bytes still
  expected, \<open>lo\<close> and \<open>hi\<close> bound the next one, \<open>pend\<close> holds the bytes of the sequence read
  so far.
\<close>

fun utf8Decode :: "nat \<Rightarrow> nat \<Rightarrow> nat \<Rightarrow> string \<Rightarrow> string \<Rightarrow> string" where
  "utf8Decode needed lo hi pend [] = (if needed = 0 then [] else replacementChar)"
| "utf8Decode needed lo hi pend (b # bs) =
     (if needed \<noteq> 0 \<and> lo \<le> of_char b \<and> (of_char b :: nat) \<le> hi then
        (if needed = 1 then pend @ [b] @ utf8Decode 0 0x80 0xBF [] bs
         else utf8Decode (needed - 1) 0x80 0xBF (pend @ [b]) bs)
      else
        (if needed \<noteq> 0 then replacementChar else []) @
        (let n = (of_char b :: nat) in
         if n \<le> 0x7F then b # utf8Decode 0 0x80 0xBF [] bs
         else if 0xC2 \<le> n \<and> n \<le> 0xDF then utf8Decode 1 0x80 0xBF [b] bs
         else if 0xE0 \<le> n \<and> n \<le> 0xEF then
           utf8Decode 2 (if n = 0xE0 then 0xA0 else 0x80) (if n = 0xED then 0x9F else 0xBF) [b] bs
         else if 0xF0 \<le> n \<and> n \<le> 0xF4 then
           utf8Decode 3 (if n = 0xF0 then 0x90 else 0x80) (if n = 0xF4 then 0x8F else 0xBF) [b] bs
         else replacementChar @ utf8Decode 0 0x80 0xBF [] bs))"

text \<open>A name or a value of a query: \<open>+\<close> is a space, then percent-decoding, then UTF-8
  decoding.\<close>

definition formDecode :: "string \<Rightarrow> string" where
  "formDecode s =
     utf8Decode 0 0x80 0xBF []
       (percentDecode (map (\<lambda>c. if c = CHR ''+'' then CHR '' '' else c) s))"

text \<open>
  \<open>Array.from(new URLSearchParams(init).entries())\<close>: a leading \<open>?\<close> is dropped, the string is
  split at \<open>&\<close>, empty pieces are skipped, each piece is split at its first \<open>=\<close> (no \<open>=\<close>: the
  value is empty).
\<close>

definition parsePair :: "string \<Rightarrow> string \<times> string" where
  "parsePair piece =
     (formDecode (takeWhile (\<lambda>c. c \<noteq> CHR ''='') piece),
      formDecode (drop 1 (dropWhile (\<lambda>c. c \<noteq> CHR ''='') piece)))"

definition urlSearchParams :: "string \<Rightarrow> (string \<times> string) list" where
  "urlSearchParams init =
     map parsePair
       (filter (\<lambda>piece. piece \<noteq> [])
          (splitOn CHR ''&'' (case init of [] \<Rightarrow> [] | c # cs \<Rightarrow> if c = CHR ''?'' then cs else init)))"

section \<open>Query parameters to path segments (src/utils.js, queryParamsToPath)\<close>

text \<open>
  \<open>const [pathname, search] = urlPath.split('?')\<close>: the part before the first \<open>?\<close>, and the
  part between the first and the second \<open>?\<close> (\<open>undefined\<close>, here \<open>None\<close>, without a \<open>?\<close>).
\<close>

definition pathnameOf :: "string \<Rightarrow> string" where
  "pathnameOf urlPath = hd (splitOn CHR ''?'' urlPath)"

definition searchOf :: "string \<Rightarrow> string option" where
  "searchOf urlPath =
     (case tl (splitOn CHR ''?'' urlPath) of [] \<Rightarrow> None | s # rest \<Rightarrow> Some s)"

text \<open>
  \<open>sort((a, b) => a[0].localeCompare(b[0]))\<close>. What \<open>localeCompare\<close> returns is fixed by the
  host's locale data, not by the program, so the collation is a parameter: a function \<open>ck\<close>
  from a string to its collation key, two strings comparing as their keys do. The sort is
  stable, as \<open>Array.prototype.sort\<close> is.
\<close>

definition sortedParams :: "(string \<Rightarrow> 'k::linorder) \<Rightarrow> string \<Rightarrow> (string \<times> string) list" where
  "sortedParams ck search = sort_key (\<lambda>p. ck (fst p)) (urlSearchParams search)"

text \<open>The loop that fills \<open>parts\<close>: a pair with an empty value is skipped.\<close>

definition keptParams :: "(string \<Rightarrow> 'k::linorder) \<Rightarrow> string \<Rightarrow> (string \<times> string) list" where
  "keptParams ck search = filter (\<lambda>p. snd p \<noteq> []) (sortedParams ck search)"

definition renderParam :: "string \<times> string \<Rightarrow> string" where
  "renderParam p = fst p @ ''-'' @ snd p"

definition queryParamsToPath :: "(string \<Rightarrow> 'k::linorder) \<Rightarrow> string \<Rightarrow> string" where
  "queryParamsToPath ck urlPath =
     (case searchOf urlPath of
        None \<Rightarrow> pathnameOf urlPath
      | Some search \<Rightarrow>
          if search = [] then pathnameOf urlPath
          else if map renderParam (keptParams ck search) = [] then pathnameOf urlPath
          else stripTrailingSlash (pathnameOf urlPath) @ ''/'' @
               joinWith ''-'' (map renderParam (keptParams ck search)) @ ''/'')"

text \<open>
  Two collations. \<open>byteOrderKey\<close> compares strings byte by byte. \<open>letterCollationKey\<close> is the
  order \<open>localeCompare\<close> gives to strings of ASCII letters in an English locale: alphabetical
  without regard to case first, and lower case before upper case where that ties. (Other
  characters are ranked by their code, which a host need not follow.)
\<close>

definition byteOrderKey :: "string \<Rightarrow> string" where
  "byteOrderKey s = s"

definition toLowerAscii :: "char \<Rightarrow> char" where
  "toLowerAscii c = (if CHR ''A'' \<le> c \<and> c \<le> CHR ''Z'' then char_of (of_char c + (32::nat)) else c)"

definition letterCollationKey :: "string \<Rightarrow> string \<times> bool list" where
  "letterCollationKey s = (map toLowerAscii s, map (\<lambda>c. CHR ''A'' \<le> c \<and> c \<le> CHR ''Z'') s)"

section \<open>URLs\<close>

text \<open>
  The \<open>URL\<close> class belongs to the host, not to the program: it is a parameter. A parser takes
  the input and an optional base and gives the parts the program reads, or \<open>None\<close> where
  \<open>new URL\<close> raises a \<open>TypeError\<close>.
\<close>

record url =
  url_origin :: string
  url_pathname :: string
  url_search :: string
  url_hash :: string

type_synonym url_parser = "string \<Rightarrow> string option \<Rightarrow> url option"

section \<open>Sitemap paths (src/sitemap.js, normalizeUrl)\<close>

definition ensureLeadingSlash :: "string \<Rightarrow> string" where
  "ensureLeadingSlash p = (if \<not> startsWith p ''/'' then ''/'' @ p else p)"

definition normalizeUrl :: "url_parser \<Rightarrow> string \<Rightarrow> string" where
  "normalizeUrl U urlString =
     (case U urlString (Some ''http://dummy'') of
        Some u \<Rightarrow>
          (let pathname = ensureLeadingSlash (url_pathname u) in
           if \<not> endsWith pathname ''.html'' \<and> \<not> endsWith pathname ''.htm'' \<and>
              CHR ''.'' \<notin> set pathname
           then (if \<not> endsWith pathname ''/'' then pathname @ ''/'' else pathname)
           else pathname)
      | None \<Rightarrow>
          (let pathname = ensureLeadingSlash (hd (splitOn CHR ''#'' (hd (splitOn CHR ''?'' urlString)))) in
           if \<not> hasFileExtension pathname \<and> \<not> endsWith pathname ''/''
           then pathname @ ''/'' else pathname))"

section \<open>Output files (src/utils.js, writeHtmlForPath)\<close>

text \<open>
  \<open>path.join\<close> on POSIX: the non-empty arguments joined by a slash, then normalised: empty
  and \<open>.\<close> segments are dropped, \<open>..\<close> removes the segment before it (in a relative path a
  \<open>..\<close> with nothing before it stays), a trailing slash is kept.
\<close>

fun normalizeSegments :: "bool \<Rightarrow> string list \<Rightarrow> string list \<Rightarrow> string list" where
  "normalizeSegments allowAboveRoot res [] = res"
| "normalizeSegments allowAboveRoot res (seg # segs) =
     (if seg = [] \<or> seg = ''.'' then normalizeSegments allowAboveRoot res segs
      else if seg = ''..'' then
        (if res \<noteq> [] \<and> last res \<noteq> ''..'' then normalizeSegments allowAboveRoot (butlast res) segs
         else if allowAboveRoot then normalizeSegments allowAboveRoot (res @ [seg]) segs
         else normalizeSegments allowAboveRoot res segs)
      else normalizeSegments allowAboveRoot (res @ [seg]) segs)"

definition pathNormalize :: "string \<Rightarrow> string" where
  "pathNormalize p =
     (if p = [] then ''.''
      else
        (let isAbsolute = (hd p = CHR ''/'');
             trailingSeparator = (last p = CHR ''/'');
             body = joinWith ''/'' (normalizeSegments (\<not> isAbsolute) [] (splitOn CHR ''/'' p))
         in if body = [] then (if isAbsolute then ''/'' else if trailingSeparator then ''./'' else ''.'')
            else (if isAbsolute then ''/'' else []) @ body @ (if trailingSeparator then ''/'' else [])))"

definition pathJoin :: "string list \<Rightarrow> string" where
  "pathJoin args = pathNormalize (joinWith ''/'' (filter (\<lambda>a. a \<noteq> []) args))"

text \<open>The file \<open>writeHtmlForPath(rootDir, urlPath, html)\<close> writes to.\<close>

definition outputPath :: "(string \<Rightarrow> 'k::linorder) \<Rightarrow> string \<Rightarrow> string \<Rightarrow> string" where
  "outputPath ck rootDir urlPath =
     (let staticPath = queryParamsToPath ck urlPath in
      if hasFileExtension staticPath then pathJoin [rootDir, stripLeadingSlash staticPath]
      else if staticPath = ''/'' then pathJoin [rootDir, ''index.html'']
      else pathJoin [rootDir, stripLeadingSlash staticPath, ''index.html''])"

text \<open>A parser that fails on every input.\<close>

definition failingParser :: url_parser where
  "failingParser s b = None"

text \<open>
  A URL parser for the examples. It reads \<open>http://host/path?query#fragment\<close> (and \<open>https\<close>)
  and, against such a base, a path that begins with one slash: the pathname ends before the
  first \<open>?\<close> or \<open>#\<close>, the search before the first \<open>#\<close>. Where the scheme is followed at once by
  a \<open>?\<close>, a \<open>#\<close> or the end of the input there is no host and it gives \<open>None\<close>, as \<open>new URL\<close>
  raises there. It gives \<open>None\<close> for every other input too (where the host's parser may well
  succeed) and it leaves every character as it is, so it stands for the host only on inputs
  of these forms that need no encoding and no removal of dot segments.
\<close>

definition splitUrlPath :: "string \<Rightarrow> string \<Rightarrow> url" where
  "splitUrlPath orig rest =
     (let afterPath = dropWhile (\<lambda>c. c \<noteq> CHR ''?'' \<and> c \<noteq> CHR ''#'') rest;
          search = takeWhile (\<lambda>c. c \<noteq> CHR ''#'') afterPath;
          hash = dropWhile (\<lambda>c. c \<noteq> CHR ''#'') afterPath
      in \<lparr>url_origin = orig,
           url_pathname = takeWhile (\<lambda>c. c \<noteq> CHR ''?'' \<and> c \<noteq> CHR ''#'') rest,
           url_search = (if search = ''?'' then [] else search),
           url_hash = (if hash = ''#'' then [] else hash)\<rparr>)"

definition absoluteParts :: "string \<Rightarrow> (string \<times> string) option" where
  "absoluteParts s =
     (let scheme = (if startsWith s ''http://'' then ''http://''
                    else if startsWith s ''https://'' then ''https://'' else []);
          r = drop (length scheme) s;
          host = takeWhile (\<lambda>c. c \<noteq> CHR ''/'' \<and> c \<noteq> CHR ''?'' \<and> c \<noteq> CHR ''#'') r;
          rest = dropWhile (\<lambda>c. c \<noteq> CHR ''/'' \<and> c \<noteq> CHR ''?'' \<and> c \<noteq> CHR ''#'') r
      in if scheme = [] \<or> host = [] then None
         else Some (scheme @ host, if startsWith rest ''/'' then rest else ''/'' @ rest))"

definition simpleParser :: url_parser where
  "simpleParser s base =
     (case absoluteParts s of
        Some (orig, rest) \<Rightarrow> Some (splitUrlPath orig rest)
      | None \<Rightarrow>
          if startsWith s ''/'' \<and> \<not> startsWith s ''//'' then
            (case base of
               None \<Rightarrow> None
             | Some b \<Rightarrow>
                 (case absoluteParts b of
                    None \<Rightarrow> None
                  | Some (orig, rest) \<Rightarrow> Some (splitUrlPath orig s)))
          else None)"

section \<open>Sitemap discovery (src/sitemap.js)\<close>

text \<open>
  JSON values as \<open>response.json()\<close> returns them. An object is the list of its members in
  the order of the text; of two members with one name the later one counts. (\<open>Object.keys\<close>
  lists names that are array indices first; the model lists every name where it first
  stands.)
\<close>

datatype json = JNull | JBool bool | JNum int | JStr string | JArr "json list"
  | JObj "(string \<times> json) list"

text \<open>
  The content API: what \<open>fetchWithTimeout\<close> does for a request URL (the sitemap module does
  not retry). The body of a response is \<open>None\<close> when it is not JSON, so that
  \<open>response.json()\<close> rejects.
\<close>

type_synonym api = "string \<Rightarrow> json option attempt"

datatype sitemap_error =
    KeyRequired
  | FetchRejected string
  | PagesNotOk nat
  | InvalidJson
  | TypeError

text \<open>\<open>v.name\<close> for a value that is not \<open>null\<close>: \<open>None\<close> is \<open>undefined\<close>.\<close>

definition jsonField :: "string \<Rightarrow> json \<Rightarrow> json option" where
  "jsonField name v = (case v of JObj members \<Rightarrow> map_of (rev members) name | _ \<Rightarrow> None)"

text \<open>Truthiness of a value, and of an optional string (\<open>if (locale)\<close>).\<close>

definition truthy :: "json \<Rightarrow> bool" where
  "truthy v =
     (case v of JNull \<Rightarrow> False | JBool b \<Rightarrow> b | JNum n \<Rightarrow> n \<noteq> 0 | JStr s \<Rightarrow> s \<noteq> []
      | JArr xs \<Rightarrow> True | JObj ms \<Rightarrow> True)"

definition given :: "string option \<Rightarrow> bool" where
  "given locale = (case locale of None \<Rightarrow> False | Some l \<Rightarrow> l \<noteq> [])"

text \<open>
  What a \<open>for ... of\<close> loop iterates: the elements of an array, the characters of a
  string; any other value is not iterable and the loop raises a \<open>TypeError\<close>.
\<close>

definition iterate :: "json \<Rightarrow> sitemap_error + json list" where
  "iterate v =
     (case v of JArr xs \<Rightarrow> Inr xs | JStr s \<Rightarrow> Inr (map (\<lambda>c. JStr [c]) s) | _ \<Rightarrow> Inl TypeError)"

text \<open>Decimal digits of a number, for the \<open>page=\<close> parameter.\<close>

fun showNat :: "nat \<Rightarrow> string" where
  "showNat n = (if n < 10 then [char_of (48 + n)] else showNat (n div 10) @ [char_of (48 + n mod 10)])"

declare showNat.simps [simp del]

definition localeSuffix :: "string option \<Rightarrow> string" where
  "localeSuffix locale = (if given locale then ''&aposLocale='' @ the locale else [])"

text \<open>The loop of \<open>fetchAllPages\<close> over the pages: \<open>page._url\<close> raises when \<open>page\<close> is \<open>null\<close>.\<close>

fun collectPageUrls :: "url_parser \<Rightarrow> json list \<Rightarrow> string list \<Rightarrow> sitemap_error + string list" where
  "collectPageUrls U [] urls = Inr urls"
| "collectPageUrls U (page # pages) urls =
     (case page of
        JNull \<Rightarrow> Inl TypeError
      | _ \<Rightarrow>
        (case jsonField ''_url'' page of
           Some (JStr s) \<Rightarrow> collectPageUrls U pages (urls @ [normalizeUrl U s])
         | _ \<Rightarrow> collectPageUrls U pages urls))"

definition pagesRequest :: "string \<Rightarrow> string option \<Rightarrow> string" where
  "pagesRequest aposHost locale =
     aposHost @ ''/api/v1/@apostrophecms/page?all=1&flat=1&published=1'' @ localeSuffix locale"

definition fetchAllPages :: "url_parser \<Rightarrow> api \<Rightarrow> string \<Rightarrow> string option \<Rightarrow> sitemap_error + string list" where
  "fetchAllPages U api aposHost locale =
     (case api (pagesRequest aposHost locale) of
        Rejected m \<Rightarrow> Inl (FetchRejected m)
      | Responded st body \<Rightarrow>
          if \<not> ok st then Inl (PagesNotOk st)
          else
            (case body of
               None \<Rightarrow> Inl InvalidJson
             | Some JNull \<Rightarrow> Inl TypeError
             | Some json \<Rightarrow>
                 (let pages =
                    (case json of
                       JArr xs \<Rightarrow> json
                     | _ \<Rightarrow> (case jsonField ''results'' json of
                               None \<Rightarrow> json | Some JNull \<Rightarrow> json | Some r \<Rightarrow> r))
                  in case (if truthy pages then iterate pages else Inr []) of
                       Inl e \<Rightarrow> Inl e
                     | Inr ps \<Rightarrow>
                         (case collectPageUrls U ps [] of
                            Inl e \<Rightarrow> Inl e
                          | Inr urls \<Rightarrow>
                              (let urls' =
                                 (if given locale then
                                    (if ''/'' @ the locale @ ''/'' \<notin> set urls \<and> ''/'' \<notin> set urls
                                     then urls @ [''/''] else urls)
                                  else (if ''/'' \<notin> set urls then urls @ [''/''] else urls))
                               in Inr (sort (uniq urls')))))))"

text \<open>\<open>probeCandidates\<close>: every failure inside the \<open>try\<close> gives the empty list.\<close>

definition probeCandidates :: "api \<Rightarrow> string \<Rightarrow> string list" where
  "probeCandidates api aposHost =
     (case api (aposHost @ ''/api/v1/'') of
        Rejected m \<Rightarrow> []
      | Responded st body \<Rightarrow>
          if \<not> ok st then []
          else
            (case body of
               Some (JObj members) \<Rightarrow>
                 filter (\<lambda>key. key \<notin> set [''search'', ''page''])
                   (filter (\<lambda>key. \<not> startsWith key ''@apostrophecms/'')
                      (uniq (map fst members)))
             | _ \<Rightarrow> []))"

text \<open>\<open>isPieceEndpoint\<close>: every failure inside the \<open>try\<close> gives \<open>false\<close>.\<close>

definition isPieceEndpoint :: "api \<Rightarrow> string \<Rightarrow> string \<Rightarrow> string option \<Rightarrow> bool" where
  "isPieceEndpoint api aposHost endpointKey locale =
     (case api (aposHost @ ''/api/v1/'' @ endpointKey @ ''?perPage=1'' @ localeSuffix locale) of
        Rejected m \<Rightarrow> False
      | Responded st body \<Rightarrow>
          if \<not> ok st then False
          else
            (case body of
               Some (JObj members) \<Rightarrow>
                 (case jsonField ''results'' (JObj members) of
                    Some (JArr []) \<Rightarrow> True
                  | Some (JArr (first # rest)) \<Rightarrow>
                      (case first of
                         JObj ms \<Rightarrow> (case jsonField ''_url'' first of Some v \<Rightarrow> truthy v | None \<Rightarrow> False)
                       | _ \<Rightarrow> False)
                  | _ \<Rightarrow> False)
             | _ \<Rightarrow> False))"

definition heuristicTypes :: "string list" where
  "heuristicTypes = [''article'', ''news'', ''product'', ''blog'', ''event'']"

definition discoverPieceTypes :: "api \<Rightarrow> string \<Rightarrow> string option \<Rightarrow> string list" where
  "discoverPieceTypes api aposHost locale =
     uniq
       (fold (\<lambda>heuristicType discoveredTypes.
                if heuristicType \<notin> set discoveredTypes \<and> isPieceEndpoint api aposHost heuristicType locale
                then discoveredTypes @ [heuristicType] else discoveredTypes)
          heuristicTypes
          (filter (\<lambda>key. isPieceEndpoint api aposHost key locale) (probeCandidates api aposHost)))"

text \<open>
  \<open>String(v)\<close> for a JSON value, which \<open>new URL\<close> applies to an argument that is not a
  string; and \<open>normalizeUrl\<close> on such an argument: when the parser raises, the fallback
  calls \<open>split\<close> on a value that has none and raises in turn.
\<close>

fun jsToString :: "json \<Rightarrow> string" where
  "jsToString JNull = ''null''"
| "jsToString (JBool b) = (if b then ''true'' else ''false'')"
| "jsToString (JNum n) = (if n < 0 then ''-'' @ showNat (nat (- n)) else showNat (nat n))"
| "jsToString (JStr s) = s"
| "jsToString (JArr xs) = joinWith '','' (map (\<lambda>x. case x of JNull \<Rightarrow> [] | _ \<Rightarrow> jsToString x) xs)"
| "jsToString (JObj ms) = ''[object Object]''"

definition normalizeUrlValue :: "url_parser \<Rightarrow> json \<Rightarrow> sitemap_error + string" where
  "normalizeUrlValue U v =
     (case v of
        JStr s \<Rightarrow> Inr (normalizeUrl U s)
      | _ \<Rightarrow> (case U (jsToString v) (Some ''http://dummy'') of
                None \<Rightarrow> Inl TypeError
              | Some u \<Rightarrow> Inr (normalizeUrl U (jsToString v))))"

text \<open>The loop of \<open>fetchAllPieces\<close> over one page of results: \<open>piece?._url\<close> does not raise.\<close>

fun collectPieceUrls :: "url_parser \<Rightarrow> json list \<Rightarrow> string list \<Rightarrow> sitemap_error + string list" where
  "collectPieceUrls U [] urls = Inr urls"
| "collectPieceUrls U (piece # pieces) urls =
     (case jsonField ''_url'' piece of
        None \<Rightarrow> collectPieceUrls U pieces urls
      | Some v \<Rightarrow>
          if truthy v then
            (case normalizeUrlValue U v of
               Inl e \<Rightarrow> Inl e
             | Inr p \<Rightarrow> collectPieceUrls U pieces (urls @ [p]))
          else collectPieceUrls U pieces urls)"

definition piecesRequest :: "string \<Rightarrow> string \<Rightarrow> nat \<Rightarrow> string option \<Rightarrow> string" where
  "piecesRequest aposHost pieceType currentPage locale =
     aposHost @ ''/api/v1/'' @ pieceType @ ''?page='' @ showNat currentPage @ ''&perPage=100'' @
     localeSuffix locale"

text \<open>
  The \<open>for (;;)\<close> loop of \<open>fetchAllPieces\<close>. The call of \<open>fetchWithTimeout\<close> and the call of
  \<open>response.json()\<close> stand outside any \<open>try\<close>: a rejection leaves the function. A response
  that is not ok ends the loop with what was collected. The loop need not end (a server
  can serve full pages for ever): \<open>None\<close> is a run that does not return.
\<close>

partial_function (option) piecesLoop ::
  "url_parser \<Rightarrow> api \<Rightarrow> string \<Rightarrow> string \<Rightarrow> string option \<Rightarrow> nat \<Rightarrow> string list \<Rightarrow>
   (sitemap_error + string list) option" where
  "piecesLoop U api aposHost pieceType locale currentPage urls =
     (case api (piecesRequest aposHost pieceType currentPage locale) of
        Rejected m \<Rightarrow> Some (Inl (FetchRejected m))
      | Responded st body \<Rightarrow>
          if \<not> ok st then Some (Inr urls)
          else
            (case body of
               None \<Rightarrow> Some (Inl InvalidJson)
             | Some json \<Rightarrow>
                 (let results =
                    (case json of
                       JNull \<Rightarrow> JArr []
                     | _ \<Rightarrow> (case jsonField ''results'' json of
                               None \<Rightarrow> JArr [] | Some JNull \<Rightarrow> JArr [] | Some r \<Rightarrow> r))
                  in case iterate results of
                       Inl e \<Rightarrow> Some (Inl e)
                     | Inr pieces \<Rightarrow>
                         (case collectPieceUrls U pieces urls of
                            Inl e \<Rightarrow> Some (Inl e)
                          | Inr urls' \<Rightarrow>
                              if length pieces < 100 then Some (Inr urls')
                              else piecesLoop U api aposHost pieceType locale (currentPage + 1) urls'))))"

declare piecesLoop.simps [code]

definition fetchAllPieces ::
  "url_parser \<Rightarrow> api \<Rightarrow> string \<Rightarrow> string \<Rightarrow> string option \<Rightarrow> (sitemap_error + string list) option" where
  "fetchAllPieces U api aposHost pieceType locale = piecesLoop U api aposHost pieceType locale 1 []"

text \<open>The loop of \<open>generateSitemap\<close> over the piece types: the first error leaves it.\<close>

fun piecesOfTypes ::
  "url_parser \<Rightarrow> api \<Rightarrow> string \<Rightarrow> string option \<Rightarrow> string list \<Rightarrow> string list \<Rightarrow>
   (sitemap_error + string list) option" where
  "piecesOfTypes U api aposHost locale [] pieceUrls = Some (Inr pieceUrls)"
| "piecesOfTypes U api aposHost locale (pieceType # types) pieceUrls =
     (case fetchAllPieces U api aposHost pieceType locale of
        None \<Rightarrow> None
      | Some (Inl e) \<Rightarrow> Some (Inl e)
      | Some (Inr urls) \<Rightarrow> piecesOfTypes U api aposHost locale types (pieceUrls @ urls))"

definition generateSitemap ::
  "url_parser \<Rightarrow> api \<Rightarrow> string \<Rightarrow> string \<Rightarrow> string option \<Rightarrow> string list option \<Rightarrow>
   (sitemap_error + string list) option" where
  "generateSitemap U api aposHost aposKey locale pieceTypes =
     (if aposKey = [] then Some (Inl KeyRequired)
      else
        (case fetchAllPages U api aposHost locale of
           Inl e \<Rightarrow> Some (Inl e)
         | Inr pageUrls \<Rightarrow>
             (let types = (case pieceTypes of
                             Some ts \<Rightarrow> ts
                           | None \<Rightarrow> discoverPieceTypes api aposHost locale)
              in case piecesOfTypes U api aposHost locale types [] of
                   None \<Rightarrow> None
                 | Some (Inl e) \<Rightarrow> Some (Inl e)
                 | Some (Inr pieceUrls) \<Rightarrow> Some (Inr (sort (uniq (pageUrls @ pieceUrls)))))))"

text \<open>
  Two backends that serve one page, \<open>/about/\<close>, in the page listing. On the first the
  listing of the piece type \<open>article\<close> is rejected (a timeout); on the second it is answered
  with status 500. Every other request is answered with 404.
\<close>

definition onePage :: "json option attempt" where
  "onePage = Responded 200 (Some (JObj [(''results'', JArr [JObj [(''_url'', JStr ''/about/'')]])]))"

definition timeoutBackend :: api where
  "timeoutBackend request =
     (if request = ''http://cms/api/v1/@apostrophecms/page?all=1&flat=1&published=1'' then onePage
      else if request = ''http://cms/api/v1/article?page=1&perPage=100'' then Rejected ''This operation was aborted''
      else Responded 404 None)"

definition errorBackend :: api where
  "errorBackend request =
     (if request = ''http://cms/api/v1/@apostrophecms/page?all=1&flat=1&published=1'' then onePage
      else if request = ''http://cms/api/v1/article?page=1&perPage=100'' then Responded 500 None
      else Responded 404 None)"

section \<open>Documents\<close>

text \<open>
  The document JSDOM builds from an HTML text: a forest of nodes. An element has its tag
  name in lower case, its attributes in order, and its children. Parsing and serialising
  belong to JSDOM; the processors are modelled on the parsed document.
\<close>

datatype node =
    Text string
  | Comment string
  | Element string "(string \<times> string) list" "node list"

text \<open>\<open>getAttribute\<close> (\<open>None\<close> is \<open>null\<close>) and \<open>setAttribute\<close>.\<close>

definition getAttribute :: "(string \<times> string) list \<Rightarrow> string \<Rightarrow> string option" where
  "getAttribute attrs name = map_of attrs name"

fun setAttribute :: "string \<Rightarrow> string \<Rightarrow> (string \<times> string) list \<Rightarrow> (string \<times> string) list" where
  "setAttribute name v [] = [(name, v)]"
| "setAttribute name v ((k, w) # attrs) =
     (if k = name then (k, v) # attrs else (k, w) # setAttribute name v attrs)"

text \<open>The elements of a document in document order, each with its tag and attributes:
  what \<open>querySelectorAll\<close> selects from.\<close>

fun elementsOf :: "node \<Rightarrow> (string \<times> (string \<times> string) list) list" where
  "elementsOf (Text t) = []"
| "elementsOf (Comment t) = []"
| "elementsOf (Element tag attrs kids) = (tag, attrs) # concat (map elementsOf kids)"

definition allElements :: "node list \<Rightarrow> (string \<times> (string \<times> string) list) list" where
  "allElements doc = concat (map elementsOf doc)"

section \<open>Link extraction and URL rewriting (src/processors/url-rewriter.js)\<close>

text \<open>
  \<open>extractInternalLinks\<close>: for each \<open>a[href]\<close> with a non-empty \<open>href\<close>, the URL is resolved
  against the base; a URL of the base's origin contributes its pathname and search. An
  anchor for which \<open>new URL\<close> raises (also for the base) is skipped. The result lists each
  link once, in the order of first occurrence.
\<close>

definition linkOf :: "url_parser \<Rightarrow> string \<Rightarrow> string \<Rightarrow> string option" where
  "linkOf U baseUrl href =
     (if href = [] then None
      else
        (case U href (Some baseUrl) of
           None \<Rightarrow> None
         | Some u \<Rightarrow>
             (case U baseUrl None of
                None \<Rightarrow> None
              | Some b \<Rightarrow>
                  if url_origin u = url_origin b \<and> url_pathname u @ url_search u \<noteq> []
                  then Some (url_pathname u @ url_search u) else None)))"

definition extractInternalLinks :: "url_parser \<Rightarrow> node list \<Rightarrow> string \<Rightarrow> string list" where
  "extractInternalLinks U doc baseUrl =
     uniq (List.map_filter
             (\<lambda>(tag, attrs).
                if tag = ''a'' then
                  (case getAttribute attrs ''href'' of
                     None \<Rightarrow> None
                   | Some href \<Rightarrow> linkOf U baseUrl href)
                else None)
             (allElements doc))"

text \<open>
  The body of the loop of \<open>makeUrlsRelative\<close> for one attribute value \<open>url\<close>: the new value.
  When \<open>new URL(url)\<close> raises the \<open>catch\<close> leaves the attribute as it is.
\<close>

definition foldQuery :: "(string \<Rightarrow> 'k::linorder) \<Rightarrow> string \<Rightarrow> string" where
  "foldQuery ck finalUrl =
     (if CHR ''?'' \<in> set finalUrl then
        (let pathname = hd (splitOn CHR ''?'' finalUrl);
             search = hd (tl (splitOn CHR ''?'' finalUrl));
             searchWithoutHash = takeWhile (\<lambda>c. c \<noteq> CHR ''#'') search;
             hash = dropWhile (\<lambda>c. c \<noteq> CHR ''#'') search
         in queryParamsToPath ck (pathname @ ''?'' @ searchWithoutHash) @ hash)
      else finalUrl)"

definition rewriteUrl :: "string \<Rightarrow> url_parser \<Rightarrow> (string \<Rightarrow> 'k::linorder) \<Rightarrow> string \<Rightarrow> string" where
  "rewriteUrl previewUrl U ck url =
     (if startsWith url previewUrl then
        (case U url None of
           None \<Rightarrow> url
         | Some urlObj \<Rightarrow> foldQuery ck (url_pathname urlObj @ url_search urlObj @ url_hash urlObj))
      else foldQuery ck url)"

text \<open>
  The selector \<open>a[href], form[action]\<close> and the choice of \<open>attr\<close>: the attribute the loop
  reads is \<open>href\<close> on an \<open>a\<close> and \<open>action\<close> on a \<open>form\<close>; no other element is selected, and an
  element without that attribute is not selected. An empty value is skipped.
\<close>

definition selectedAttr :: "string \<Rightarrow> string option" where
  "selectedAttr tag =
     (if tag = ''a'' then Some ''href'' else if tag = ''form'' then Some ''action'' else None)"

definition rewriteAttrs ::
  "string \<Rightarrow> url_parser \<Rightarrow> (string \<Rightarrow> 'k::linorder) \<Rightarrow> string \<Rightarrow> (string \<times> string) list \<Rightarrow>
   (string \<times> string) list" where
  "rewriteAttrs previewUrl U ck tag attrs =
     (case selectedAttr tag of
        None \<Rightarrow> attrs
      | Some attr \<Rightarrow>
          (case getAttribute attrs attr of
             None \<Rightarrow> attrs
           | Some url \<Rightarrow>
               if url = [] then attrs
               else if rewriteUrl previewUrl U ck url \<noteq> url
               then setAttribute attr (rewriteUrl previewUrl U ck url) attrs
               else attrs))"

fun rewriteNode :: "string \<Rightarrow> url_parser \<Rightarrow> (string \<Rightarrow> 'k::linorder) \<Rightarrow> node \<Rightarrow> node" where
  "rewriteNode previewUrl U ck (Text t) = Text t"
| "rewriteNode previewUrl U ck (Comment t) = Comment t"
| "rewriteNode previewUrl U ck (Element tag attrs kids) =
     Element tag (rewriteAttrs previewUrl U ck tag attrs) (map (rewriteNode previewUrl U ck) kids)"

definition makeUrlsRelative ::
  "string \<Rightarrow> url_parser \<Rightarrow> (string \<Rightarrow> 'k::linorder) \<Rightarrow> node list \<Rightarrow> node list" where
  "makeUrlsRelative previewUrl U ck doc = map (rewriteNode previewUrl U ck) doc"

section \<open>Video widgets (src/processors/video-widgets.js)\<close>

text \<open>
  The oEmbed endpoint of the backend: for a video URL, what each call of \<open>fetchWithTimeout\<close>
  for it does. \<open>fetchOembedData\<close> goes through \<open>fetchWithRetry\<close>; its \<open>catch\<close> turns every
  failure (of the fetch, or of \<open>response.json()\<close>) into \<open>null\<close>, here \<open>None\<close>.
\<close>

type_synonym oembed = "string \<Rightarrow> nat \<Rightarrow> json option attempt"

definition fetchOembedData :: "oembed \<Rightarrow> int \<Rightarrow> string \<Rightarrow> json option" where
  "fetchOembedData oembed retries videoUrl =
     (case outcome (fetchWithRetry (oembed videoUrl) retries) of
        Inl e \<Rightarrow> None
      | Inr (st, body) \<Rightarrow> body)"

text \<open>The two fixed pieces of markup, as documents.\<close>

definition unavailableMarkup :: "node list" where
  "unavailableMarkup =
     [Element ''div''
        [(''class'', ''video-error''),
         (''style'', ''padding: 2rem; background: #f5f5f5; border: 1px solid #ddd; border-radius: 4px; text-align: center; color: #666;'')]
        [Element ''p'' [] [Text ''Video unavailable'']]]"

definition noUrlMarkup :: "node list" where
  "noUrlMarkup = [Element ''div'' [(''class'', ''video-error'')] [Text ''No video URL provided'']]"

text \<open>
  \<open>createResponsiveVideoHtml\<close>. Without data, or without an \<open>html\<close> member that is truthy, the
  result is the placeholder. The markup of a successful embedding (the wrapper sized by a
  floating-point aspect ratio around the provider's HTML as JSDOM parses it) is a
  parameter, \<open>renderEmbed\<close>.
\<close>

definition createResponsiveVideoHtml ::
  "(json \<Rightarrow> string \<Rightarrow> node list) \<Rightarrow> json option \<Rightarrow> string \<Rightarrow> node list" where
  "createResponsiveVideoHtml renderEmbed oembedData title =
     (case oembedData of
        None \<Rightarrow> unavailableMarkup
      | Some d \<Rightarrow>
          if \<not> truthy d then unavailableMarkup
          else (case jsonField ''html'' d of
                  None \<Rightarrow> unavailableMarkup
                | Some h \<Rightarrow> if truthy h then renderEmbed d title else unavailableMarkup))"

text \<open>The body of the loop of \<open>processVideoWidgets\<close> for one widget: what replaces it.\<close>

definition widgetMarkup ::
  "(json \<Rightarrow> string \<Rightarrow> node list) \<Rightarrow> oembed \<Rightarrow> int \<Rightarrow> (string \<times> string) list \<Rightarrow> node list" where
  "widgetMarkup renderEmbed oembed retries attrs =
     (let videoUrl = getAttribute attrs ''url'';
          videoTitle = (case getAttribute attrs ''title'' of
                          None \<Rightarrow> ''Video content''
                        | Some t \<Rightarrow> if t = [] then ''Video content'' else t)
      in case videoUrl of
           None \<Rightarrow> noUrlMarkup
         | Some u \<Rightarrow>
             if u = [] then noUrlMarkup
             else createResponsiveVideoHtml renderEmbed (fetchOembedData oembed retries u) videoTitle)"

text \<open>
  Setting \<open>outerHTML\<close> on each widget of the static list, in document order: a widget is
  replaced, with all it contains; a widget inside another widget is replaced inside a
  subtree that is no longer part of the document.
\<close>

fun replaceWidgets :: "((string \<times> string) list \<Rightarrow> node list) \<Rightarrow> node \<Rightarrow> node list" where
  "replaceWidgets r (Text t) = [Text t]"
| "replaceWidgets r (Comment t) = [Comment t]"
| "replaceWidgets r (Element tag attrs kids) =
     (if tag = ''video-widget'' then r attrs
      else [Element tag attrs (concat (map (replaceWidgets r) kids))])"

definition videoWidgets :: "node list \<Rightarrow> (string \<times> (string \<times> string) list) list" where
  "videoWidgets doc = filter (\<lambda>e. fst e = ''video-widget'') (allElements doc)"

definition processVideoWidgets ::
  "(json \<Rightarrow> string \<Rightarrow> node list) \<Rightarrow> oembed \<Rightarrow> int \<Rightarrow> node list \<Rightarrow> node list" where
  "processVideoWidgets renderEmbed oembed retries doc =
     (if videoWidgets doc = [] then doc
      else concat (map (replaceWidgets (widgetMarkup renderEmbed oembed retries)) doc))"

text \<open>
  \<open>(html.match(/<video-widget/g) || []).length\<close>: the matches of a literal pattern in a
  text, found from left to right, each search starting where the last match ended.
\<close>

fun countFrom :: "string \<Rightarrow> nat \<Rightarrow> string \<Rightarrow> nat" where
  "countFrom pat skip [] = 0"
| "countFrom pat skip (c # cs) =
     (if skip > 0 then countFrom pat (skip - 1) cs
      else if startsWith (c # cs) pat then 1 + countFrom pat (length pat - 1) cs
      else countFrom pat 0 cs)"

definition countMatches :: "string \<Rightarrow> string \<Rightarrow> nat" where
  "countMatches pat s = countFrom pat 0 s"

section \<open>Bounded concurrency (src/utils.js, mapLimit)\<close>

text \<open>
  \<open>mapLimit\<close> starts \<open>limit\<close> runners; each runs \<open>processQueue\<close>: while the queue is not
  empty it takes the first item, calls the worker and awaits it. JavaScript runs one
  piece of code at a time and switches only at an \<open>await\<close>, so a run is a sequence of atomic
  steps of the runners, in an order the model does not fix: a schedule chooses the runner
  of each step.

  A worker is two functions on the state \<open>'s\<close> it shares with its caller. \<open>invoke\<close> is the
  call \<open>worker(item)\<close>, up to the worker's first \<open>await\<close> or to its end; \<open>resume\<close> continues a
  suspended worker to its next \<open>await\<close> or to its end. Each gives the new state and
  either the suspended worker (\<open>Inl\<close>) or how its promise settled (\<open>Inr\<close>: \<open>None\<close> fulfilled,
  \<open>Some m\<close> rejected with an error of message \<open>m\<close>).
\<close>

record ('a, 's, 't) worker =
  invoke :: "'a \<Rightarrow> 's \<Rightarrow> 's \<times> ('t + string option)"
  resume :: "'t \<Rightarrow> 's \<Rightarrow> 's \<times> ('t + string option)"

text \<open>
  A runner that has not returned is at its \<open>await worker(item)\<close>: the worker is suspended,
  or it has settled and the runner has not yet gone on.
\<close>

datatype ('a, 't) runner = Waiting 'a 't | Settled 'a "string option"

text \<open>
  The state of a call of \<open>mapLimit\<close>: the shared state, the local \<open>queue\<close>, the runners that
  have not returned, the \<open>results\<close> object (\<open>success\<close>, \<open>failed\<close>, \<open>errors\<close>), and two logs kept
  for the statements: the items the worker was called with, and the settled calls.
\<close>

record ('a, 's, 't) pool =
  shared :: 's
  queue :: "'a list"
  runners :: "('a, 't) runner list"
  success :: nat
  failed :: nat
  errors :: "('a \<times> string) list"
  invoked :: "'a list"
  settled :: "('a \<times> string option) list"

text \<open>The call \<open>worker(item)\<close>: the new pool and the state of the runner that made it.\<close>

definition launch ::
  "('a, 's, 't) worker \<Rightarrow> 'a \<Rightarrow> ('a, 's, 't) pool \<Rightarrow> ('a, 's, 't) pool \<times> ('a, 't) runner" where
  "launch W item p =
     (case invoke W item (shared p) of
        (s, Inl t) \<Rightarrow> (p\<lparr>shared := s, invoked := invoked p @ [item]\<rparr>, Waiting item t)
      | (s, Inr out) \<Rightarrow>
          (p\<lparr>shared := s, invoked := invoked p @ [item], settled := settled p @ [(item, out)]\<rparr>,
           Settled item out))"

text \<open>
  A runner at the head of its loop: \<open>while (queue.length) { const item = queue.shift(); ...\<close>.
  With an empty queue the runner returns (no runner is left of it).
\<close>

definition loopHead ::
  "('a, 's, 't) worker \<Rightarrow> ('a, 's, 't) pool \<Rightarrow> ('a, 's, 't) pool \<times> ('a, 't) runner list" where
  "loopHead W p =
     (case queue p of
        [] \<Rightarrow> (p, [])
      | item # rest \<Rightarrow> (case launch W item (p\<lparr>queue := rest\<rparr>) of (p', r) \<Rightarrow> (p', [r])))"

text \<open>The bookkeeping after the \<open>await\<close>: the \<open>try\<close> went through, or the \<open>catch\<close> ran.\<close>

definition record_result :: "'a \<Rightarrow> string option \<Rightarrow> ('a, 's, 't) pool \<Rightarrow> ('a, 's, 't) pool" where
  "record_result item out p =
     (case out of
        None \<Rightarrow> p\<lparr>success := success p + 1\<rparr>
      | Some m \<Rightarrow> p\<lparr>failed := failed p + 1, errors := errors p @ [(item, m)]\<rparr>)"

text \<open>One atomic step of the runner at position \<open>i\<close>.\<close>

definition stepRunner :: "('a, 's, 't) worker \<Rightarrow> nat \<Rightarrow> ('a, 's, 't) pool \<Rightarrow> ('a, 's, 't) pool" where
  "stepRunner W i p =
     (let before = take i (runners p); after = drop (Suc i) (runners p) in
      case runners p ! i of
        Waiting item t \<Rightarrow>
          (case resume W t (shared p) of
             (s, Inl t') \<Rightarrow> p\<lparr>shared := s, runners := before @ [Waiting item t'] @ after\<rparr>
           | (s, Inr out) \<Rightarrow>
               p\<lparr>shared := s, settled := settled p @ [(item, out)],
                 runners := before @ [Settled item out] @ after\<rparr>)
      | Settled item out \<Rightarrow>
          (case loopHead W (record_result item out p) of
             (p', rs) \<Rightarrow> p'\<lparr>runners := before @ rs @ after\<rparr>))"

text \<open>
  \<open>Array.from({ length: limit }, processQueue)\<close> calls the runners one after the other, each
  up to its first \<open>await\<close>.
\<close>

fun startRunners :: "('a, 's, 't) worker \<Rightarrow> nat \<Rightarrow> ('a, 's, 't) pool \<Rightarrow> ('a, 's, 't) pool" where
  "startRunners W 0 p = p"
| "startRunners W (Suc n) p =
     startRunners W n (case loopHead W p of (p', rs) \<Rightarrow> p'\<lparr>runners := runners p' @ rs\<rparr>)"

text \<open>
  \<open>await Promise.all(runners)\<close>: steps are taken until every runner has returned. The
  schedule \<open>sched\<close> gives, for the \<open>k\<close>-th step, the runner that takes it (counted among those
  that have not returned). A worker that never settles keeps the loop from ending: \<open>None\<close>.
\<close>

partial_function (option) runPool ::
  "('a, 's, 't) worker \<Rightarrow> (nat \<Rightarrow> nat) \<Rightarrow> nat \<Rightarrow> ('a, 's, 't) pool \<Rightarrow> ('a, 's, 't) pool option" where
  "runPool W sched k p =
     (if runners p = [] then Some p
      else runPool W sched (Suc k) (stepRunner W (sched k mod length (runners p)) p))"

declare runPool.simps [code]

definition initialPool :: "'a list \<Rightarrow> 's \<Rightarrow> ('a, 's, 't) pool" where
  "initialPool items s =
     \<lparr>shared = s, queue = items, runners = [], success = 0, failed = 0, errors = [],
      invoked = [], settled = []\<rparr>"

text \<open>\<open>mapLimit(items, limit, worker)\<close>; a \<open>limit\<close> below zero counts as zero.\<close>

definition mapLimit ::
  "('a, 's, 't) worker \<Rightarrow> (nat \<Rightarrow> nat) \<Rightarrow> 'a list \<Rightarrow> int \<Rightarrow> 's \<Rightarrow> ('a, 's, 't) pool option" where
  "mapLimit W sched items limit s =
     runPool W sched 0 (startRunners W (nat limit) (initialPool items s))"

text \<open>
  For the statements. Of a log of settled calls: the rejected ones with their messages, and
  the items of the fulfilled ones. Of the runners: the items whose worker is suspended, and
  the calls that have settled and are not yet counted in \<open>results\<close>.
\<close>

definition rejected :: "('a \<times> string option) list \<Rightarrow> ('a \<times> string) list" where
  "rejected log = concat (map (\<lambda>(item, out). case out of None \<Rightarrow> [] | Some m \<Rightarrow> [(item, m)]) log)"

definition fulfilled :: "('a \<times> string option) list \<Rightarrow> 'a list" where
  "fulfilled log = concat (map (\<lambda>(item, out). case out of None \<Rightarrow> [item] | Some m \<Rightarrow> []) log)"

definition awaited :: "('a, 't) runner list \<Rightarrow> 'a list" where
  "awaited rs = concat (map (\<lambda>r. case r of Waiting item t \<Rightarrow> [item] | Settled item out \<Rightarrow> []) rs)"

definition uncounted :: "('a, 't) runner list \<Rightarrow> ('a \<times> string option) list" where
  "uncounted rs = concat (map (\<lambda>r. case r of Waiting item t \<Rightarrow> [] | Settled item out \<Rightarrow> [(item, out)]) rs)"

text \<open>
  A worker settles when no call of it awaits for ever: some rank of the suspended worker,
  bounded at the call, falls at each resumption.
\<close>

definition settles :: "('a, 's, 't) worker \<Rightarrow> ('t \<Rightarrow> nat) \<Rightarrow> nat \<Rightarrow> bool" where
  "settles W rank bound =
     ((\<forall>item s s' t. invoke W item s = (s', Inl t) \<longrightarrow> rank t \<le> bound) \<and>
      (\<forall>t s s' t'. resume W t s = (s', Inl t') \<longrightarrow> rank t' < rank t))"

text \<open>The steps a pool can still take, at most.\<close>

definition runnerCost :: "('t \<Rightarrow> nat) \<Rightarrow> ('a, 't) runner \<Rightarrow> nat" where
  "runnerCost rank r = (case r of Waiting item t \<Rightarrow> rank t + 2 | Settled item out \<Rightarrow> 1)"

definition poolCost :: "('t \<Rightarrow> nat) \<Rightarrow> nat \<Rightarrow> ('a, 's, 't) pool \<Rightarrow> nat" where
  "poolCost rank bound p =
     sum_list (map (runnerCost rank) (runners p)) + length (queue p) * (bound + 3)"

text \<open>
  What holds of a pool during a call of \<open>mapLimit\<close> on \<open>items\<close> with \<open>n\<close> runners, \<open>k\<close> of them
  not yet started.
\<close>

definition poolInv :: "'a list \<Rightarrow> nat \<Rightarrow> nat \<Rightarrow> ('a, 's, 't) pool \<Rightarrow> bool" where
  "poolInv items n k p =
     (mset (invoked p) + mset (queue p) = mset items \<and>
      mset (invoked p) = mset (map fst (settled p)) + mset (awaited (runners p)) \<and>
      mset (rejected (settled p)) = mset (errors p) + mset (rejected (uncounted (runners p))) \<and>
      failed p = length (errors p) \<and>
      length (fulfilled (settled p)) = success p + length (fulfilled (uncounted (runners p))) \<and>
      length (runners p) + k \<le> n \<and>
      (length (runners p) + k < n \<longrightarrow> queue p = []))"



text \<open>
  The suspended calls of the worker, each with its item; and what it is for a property \<open>Q\<close>
  of the shared state, the items not yet taken and the suspended calls to be kept by every
  step of the worker.
\<close>

definition tasks :: "('a, 't) runner list \<Rightarrow> ('a \<times> 't) list" where
  "tasks rs = concat (map (\<lambda>r. case r of Waiting item t \<Rightarrow> [(item, t)] | Settled item out \<Rightarrow> []) rs)"

definition keeps ::
  "('a, 's, 't) worker \<Rightarrow> ('s \<Rightarrow> 'a list \<Rightarrow> ('a \<times> 't) multiset \<Rightarrow> bool) \<Rightarrow> bool" where
  "keeps W Q =
     ((\<forall>s q H a s' t. Q s (a # q) H \<and> invoke W a s = (s', Inl t) \<longrightarrow> Q s' q (add_mset (a, t) H)) \<and>
      (\<forall>s q H a s' out. Q s (a # q) H \<and> invoke W a s = (s', Inr out) \<longrightarrow> Q s' q H) \<and>
      (\<forall>s q H a t s' t'. Q s q (add_mset (a, t) H) \<and> resume W t s = (s', Inl t') \<longrightarrow>
          Q s' q (add_mset (a, t') H)) \<and>
      (\<forall>s q H a t s' out. Q s q (add_mset (a, t) H) \<and> resume W t s = (s', Inr out) \<longrightarrow> Q s' q H))"

section \<open>The crawl loop (src/index.js, exportStatic)\<close>

text \<open>
  What one export is given: the preview URL, the retry count, the concurrency, the output
  directory, the host's URL parser and collation, the markup of a successful embed, the
  oEmbed endpoint, and the preview server. The server is a function of the path passed to
  \<open>new URL(urlPath, previewUrl)\<close>: \<open>None\<close> where that raises, otherwise what each call of
  \<open>fetchWithTimeout\<close> for the page does; a response carries the HTML text and the document
  JSDOM builds from it.
\<close>

record 'k job =
  cfg_previewUrl :: string
  cfg_retries :: int
  cfg_concurrency :: int
  cfg_outputDir :: string
  cfg_url :: url_parser
  cfg_collation :: "string \<Rightarrow> 'k"
  cfg_embed :: "json \<Rightarrow> string \<Rightarrow> node list"
  cfg_oembed :: oembed
  cfg_site :: "string \<Rightarrow> (nat \<Rightarrow> (string \<times> node list) attempt) option"

text \<open>
  The variables the page worker closes over: \<open>processedUrls\<close> (a \<open>Set\<close>, in insertion order),
  \<open>urlQueue\<close>, \<open>processedVideoWidgets\<close> and \<open>results.errors\<close>; the calls of \<open>writeHtmlForPath\<close>
  (path given, file written, document) and of \<open>fetchWithRetry\<close> are logged.
\<close>

record crawl =
  processedUrls :: "string list"
  urlQueue :: "string list"
  processedVideoWidgets :: nat
  pageErrors :: "(string \<times> fetch_error) list"
  written :: "(string \<times> string \<times> node list) list"
  fetched :: "string list"

text \<open>
  A suspended page worker: at \<open>await fetchWithRetry(...)\<close>, with what the fetch settles to,
  or at \<open>await processVideoWidgets(...)\<close>, with the widget count and the document it
  returns. (The other \<open>await\<close>s, on \<open>response.text()\<close> and inside \<open>processVideoWidgets\<close>, touch
  no shared variable and are not separate steps.)
\<close>

datatype task =
    AfterFetch string "fetch_error + (nat \<times> string \<times> node list)"
  | AfterWidgets string nat "node list"

text \<open>\<open>processedUrls.add(urlPath)\<close>.\<close>

definition addUrl :: "string \<Rightarrow> string list \<Rightarrow> string list" where
  "addUrl u us = (if u \<in> set us then us else us @ [u])"

text \<open>The loop over \<open>foundLinks\<close>.\<close>

fun pushLinks :: "string list \<Rightarrow> string list \<Rightarrow> string list \<Rightarrow> string list" where
  "pushLinks [] processed q = q"
| "pushLinks (link # links) processed q =
     pushLinks links processed (if link \<notin> set processed \<and> link \<notin> set q then q @ [link] else q)"

text \<open>From \<open>html = makeUrlsRelative(html, previewUrl)\<close> to the end of the \<open>try\<close> block.\<close>

definition finishPage :: "('k::linorder) job \<Rightarrow> string \<Rightarrow> node list \<Rightarrow> crawl \<Rightarrow> crawl \<times> (task + string option)" where
  "finishPage cfg urlPath doc c =
     (c\<lparr>written := written c @
          [(urlPath, outputPath (cfg_collation cfg) (cfg_outputDir cfg) urlPath,
            makeUrlsRelative (cfg_previewUrl cfg) (cfg_url cfg) (cfg_collation cfg) doc)],
        processedUrls := addUrl urlPath (processedUrls c)\<rparr>,
      Inr None)"

text \<open>
  The page worker. It returns at once for a processed path; \<open>new URL\<close> stands outside the
  \<open>try\<close>, so where it raises the worker rejects; otherwise the fetch is started. When the
  fetch has failed the \<open>catch\<close> records the error (reading \<open>error.message\<close> of \<open>undefined\<close>,
  which \<open>fetchWithRetry\<close> raises for a negative retry count, raises in turn). When it has
  succeeded the links are queued and the widgets counted.
\<close>

definition pageWorker :: "('k::linorder) job \<Rightarrow> (string, crawl, task) worker" where
  "pageWorker cfg =
     \<lparr>invoke = (\<lambda>urlPath c.
        if urlPath \<in> set (processedUrls c) then (c, Inr None)
        else
          (case cfg_site cfg urlPath of
             None \<Rightarrow> (c, Inr (Some ''Invalid URL''))
           | Some net \<Rightarrow>
               (c\<lparr>fetched := fetched c @ [urlPath]\<rparr>,
                Inl (AfterFetch urlPath (outcome (fetchWithRetry net (cfg_retries cfg))))))),
      resume = (\<lambda>t c.
        case t of
          AfterFetch urlPath (Inl e) \<Rightarrow>
            (if e = NoError then (c, Inr (Some ''Cannot read properties of undefined''))
             else (c\<lparr>pageErrors := pageErrors c @ [(urlPath, e)]\<rparr>, Inr None))
        | AfterFetch urlPath (Inr (st, text, doc)) \<Rightarrow>
            (let c' = c\<lparr>urlQueue :=
                         pushLinks (extractInternalLinks (cfg_url cfg) doc (cfg_previewUrl cfg))
                           (processedUrls c) (urlQueue c)\<rparr>;
                 videoWidgetCount = countMatches ''<video-widget'' text
             in if videoWidgetCount > 0
                then (c', Inl (AfterWidgets urlPath videoWidgetCount
                        (processVideoWidgets (cfg_embed cfg) (cfg_oembed cfg) (cfg_retries cfg) doc)))
                else finishPage cfg urlPath doc c')
        | AfterWidgets urlPath videoWidgetCount doc \<Rightarrow>
            finishPage cfg urlPath doc
              (c\<lparr>processedVideoWidgets := processedVideoWidgets c + videoWidgetCount\<rparr>))\<rparr>"

text \<open>
  The \<open>while (urlQueue.length > 0)\<close> loop. \<open>sched\<close> gives each call of \<open>mapLimit\<close> its
  schedule. \<open>splice\<close> takes a negative count as zero.
\<close>

partial_function (option) crawlLoop ::
  "('k::linorder) job \<Rightarrow> (nat \<Rightarrow> nat \<Rightarrow> nat) \<Rightarrow> nat \<Rightarrow> crawl \<Rightarrow> crawl option" where
  "crawlLoop cfg sched round c =
     (if urlQueue c = [] then Some c
      else
        (let batch = take (nat (cfg_concurrency cfg * 2)) (urlQueue c);
             c' = c\<lparr>urlQueue := drop (nat (cfg_concurrency cfg * 2)) (urlQueue c)\<rparr>;
             batchUrls = filter (\<lambda>url. url \<notin> set (processedUrls c')) batch
         in if batchUrls = [] then crawlLoop cfg sched (Suc round) c'
            else Option.bind
                   (mapLimit (pageWorker cfg) (sched round) batchUrls (cfg_concurrency cfg) c')
                   (\<lambda>p. crawlLoop cfg sched (Suc round) (shared p))))"

declare crawlLoop.simps [code]

definition initialCrawl :: "string list \<Rightarrow> crawl" where
  "initialCrawl allUrls =
     \<lparr>processedUrls = [], urlQueue = allUrls, processedVideoWidgets = 0, pageErrors = [],
      written = [], fetched = []\<rparr>"

text \<open>The crawl of \<open>exportStatic\<close>, from the sitemap \<open>allUrls\<close>.\<close>

definition renderAll :: "('k::linorder) job \<Rightarrow> (nat \<Rightarrow> nat \<Rightarrow> nat) \<Rightarrow> string list \<Rightarrow> crawl option" where
  "renderAll cfg sched allUrls = crawlLoop cfg sched 0 (initialCrawl allUrls)"

text \<open>\<open>results.pagesRendered = processedUrls.size\<close>.\<close>

definition pagesRendered :: "crawl \<Rightarrow> nat" where
  "pagesRendered c = length (processedUrls c)"

section \<open>The link graph of a site\<close>

text \<open>
  What the fetch of a page gives when it succeeds (\<open>None\<close> when \<open>new URL\<close> or
  \<open>fetchWithRetry\<close> raises), the links \<open>extractInternalLinks\<close> finds on the page, and the
  paths that can be reached from the sitemap through the links of fetched pages.
\<close>

definition fetchPage :: "('k::linorder) job \<Rightarrow> string \<Rightarrow> (nat \<times> string \<times> node list) option" where
  "fetchPage cfg urlPath =
     (case cfg_site cfg urlPath of
        None \<Rightarrow> None
      | Some net \<Rightarrow>
          (case outcome (fetchWithRetry net (cfg_retries cfg)) of
             Inl e \<Rightarrow> None
           | Inr page \<Rightarrow> Some page))"

definition pageLinks :: "('k::linorder) job \<Rightarrow> string \<Rightarrow> string list" where
  "pageLinks cfg urlPath =
     (case fetchPage cfg urlPath of
        None \<Rightarrow> []
      | Some (st, text, doc) \<Rightarrow> extractInternalLinks (cfg_url cfg) doc (cfg_previewUrl cfg))"

inductive_set reachable :: "('k::linorder) job \<Rightarrow> string set \<Rightarrow> string set"
  for cfg :: "('k::linorder) job" and seeds :: "string set" where
  seed: "u \<in> seeds \<Longrightarrow> u \<in> reachable cfg seeds"
| link: "u \<in> reachable cfg seeds \<Longrightarrow> l \<in> set (pageLinks cfg u) \<Longrightarrow> l \<in> reachable cfg seeds"

text \<open>
  What holds of the crawl during a call of \<open>mapLimit\<close>, with \<open>pending\<close> the paths of the batch
  not yet taken and \<open>H\<close> the suspended page workers. A suspended worker holds the path it
  was called with: before the fetch is back, what the fetch gives; after it, a page whose
  links have been looked at.
\<close>

fun taskUrl :: "task \<Rightarrow> string" where
  "taskUrl (AfterFetch urlPath r) = urlPath"
| "taskUrl (AfterWidgets urlPath n doc) = urlPath"

fun widgetsTask :: "task \<Rightarrow> bool" where
  "widgetsTask (AfterFetch urlPath r) = False"
| "widgetsTask (AfterWidgets urlPath n doc) = True"

definition taskOK :: "('k::linorder) job \<Rightarrow> crawl \<Rightarrow> string \<times> task \<Rightarrow> bool" where
  "taskOK cfg s x =
     (case snd x of
        AfterFetch u r \<Rightarrow>
          u = fst x \<and> (\<exists>net. cfg_site cfg u = Some net \<and> r = outcome (fetchWithRetry net (cfg_retries cfg)))
      | AfterWidgets u n doc \<Rightarrow>
          u = fst x \<and> fetchPage cfg u \<noteq> None \<and>
          set (pageLinks cfg u) \<subseteq> set (processedUrls s) \<union> set (urlQueue s))"

definition known ::
  "('k::linorder) job \<Rightarrow> crawl \<Rightarrow> string list \<Rightarrow> (string \<times> task) multiset \<Rightarrow> string set" where
  "known cfg s pending H =
     set (processedUrls s) \<union> set (urlQueue s) \<union> set pending \<union> fst ` set_mset H \<union>
     {u. fetchPage cfg u = None}"

text \<open>Nothing that can be reached is lost, and nothing else is rendered.\<close>

definition covers ::
  "('k::linorder) job \<Rightarrow> string set \<Rightarrow> crawl \<Rightarrow> string list \<Rightarrow> (string \<times> task) multiset \<Rightarrow> bool" where
  "covers cfg seeds s pending H =
     (set (processedUrls s) \<subseteq> {u \<in> reachable cfg seeds. fetchPage cfg u \<noteq> None} \<and>
      set (urlQueue s) \<union> set pending \<union> fst ` set_mset H \<subseteq> reachable cfg seeds \<and>
      seeds \<subseteq> known cfg s pending H \<and>
      (\<forall>u \<in> set (processedUrls s). set (pageLinks cfg u) \<subseteq> known cfg s pending H) \<and>
      (\<forall>x \<in># H. taskOK cfg s x) \<and>
      fst ` set (written s) = set (processedUrls s) \<and>
      (\<forall>w \<in> set (written s).
         fst (snd w) = outputPath (cfg_collation cfg) (cfg_outputDir cfg) (fst w)))"

text \<open>No path is in two hands, and none that is rendered is in any.\<close>

definition once :: "crawl \<Rightarrow> string list \<Rightarrow> (string \<times> task) multiset \<Rightarrow> bool" where
  "once s pending H =
     (distinct (processedUrls s) \<and> map fst (written s) = processedUrls s \<and>
      distinct (urlQueue s) \<and> distinct pending \<and>
      (\<forall>x \<in># H. count (image_mset fst H) (fst x) = 1 \<and> fst x \<notin> set pending \<and> taskUrl (snd x) = fst x) \<and>
      (\<forall>u \<in> set pending \<union> fst ` set_mset H. u \<notin> set (processedUrls s)))"

text \<open>
  Since the call of \<open>mapLimit\<close> began, in the state \<open>c0\<close>: the queue has grown only if a page
  has been rendered, or is about to be.
\<close>

definition advances :: "crawl \<Rightarrow> crawl \<Rightarrow> string list \<Rightarrow> (string \<times> task) multiset \<Rightarrow> bool" where
  "advances c0 s pending H =
     (set (processedUrls c0) \<subseteq> set (processedUrls s) \<and>
      (\<forall>x \<in># H. taskUrl (snd x) \<notin> set (processedUrls c0)) \<and>
      (urlQueue s = urlQueue c0 \<or> \<not> set (processedUrls s) \<subseteq> set (processedUrls c0) \<or>
       (\<exists>x \<in># H. widgetsTask (snd x))))"

section \<open>Example inputs\<close>





text \<open>The schedule that always lets the first runner step.\<close>

definition firstRunner :: "nat \<Rightarrow> nat \<Rightarrow> nat" where
  "firstRunner round k = 0"

text \<open>
  Three fetched pages, each the text with the document JSDOM builds from it: a widget
  (the oEmbed endpoint of \<open>exampleJob\<close> rejects every request); an element whose tag only
  begins like the widget's; and a widget written in upper case, which the parser lowers.
\<close>

definition widgetPage :: "string \<times> node list" where
  "widgetPage =
     (''<video-widget url=\"https://youtu.be/x\"></video-widget>'',
      [Element ''video-widget'' [(''url'', ''https://youtu.be/x'')] []])"


section \<open>Properties of the retrying fetch client\<close>

lemma fetchLoop_attempts_le:
  "attempt \<le> retries + 1 \<Longrightarrow>
   int (attempts (fetchLoop net retries attempt e calls ds)) \<le> int calls + (retries + 1 - attempt)"
proof (induction net retries attempt e calls ds rule: fetchLoop.induct)
  case (1 net retries attempt lastError calls ds)
  show ?case
  proof (cases "attempt \<le> retries")
    case False
    with "1.prems" show ?thesis by (subst fetchLoop.simps) simp
  next
    case True
    show ?thesis
    proof (cases "tryBlock (net calls)")
      case (Returned st b)
      with True show ?thesis by (subst fetchLoop.simps) simp
    next
      case (Raised e)
      with True "1.IH"(1)[OF True Raised] show ?thesis
        by (subst fetchLoop.simps) simp
    next
      case (Assigned e)
      with True "1.IH"(2)[OF True Assigned] show ?thesis
        by (subst fetchLoop.simps) simp
    qed
  qed
qed

lemma tryBlock_retryable:
  "retryable a \<Longrightarrow> \<exists>e. tryBlock a = Raised e \<or> tryBlock a = Assigned e"
  by (auto simp: retryable_def tryBlock_def split: attempt.splits)

lemma fetchLoop_step_fail:
  "attempt \<le> retries \<Longrightarrow> tryBlock (net calls) = Raised e \<or> tryBlock (net calls) = Assigned e \<Longrightarrow>
   fetchLoop net retries attempt le calls ds =
   fetchLoop net retries (attempt + 1) e (calls + 1) (if attempt < retries then ds @ [backoff attempt] else ds)"
  by (subst fetchLoop.simps) auto

lemma fetchLoop_step_ok:
  "attempt \<le> retries \<Longrightarrow> net calls = Responded st b \<Longrightarrow> ok st \<Longrightarrow>
   fetchLoop net retries attempt le calls ds = \<lparr>outcome = Inr (st, b), attempts = calls + 1, delays = ds\<rparr>"
  by (subst fetchLoop.simps) (simp add: tryBlock_def)

text \<open>
  C3. \<open>fetchWithRetry\<close> makes at most \<open>retries + 1\<close> calls of \<open>fetchWithTimeout\<close>; and with
  \<open>retries = 3\<close>, when the first two attempts fail with retryable failures and the third
  returns a 2xx response, it returns that response after exactly 3 attempts.
\<close>

theorem fetchWithRetry_budget:
  "(0 \<le> retries \<longrightarrow> int (attempts (fetchWithRetry net retries)) \<le> retries + 1) \<and>
   (retryable (net 0) \<and> retryable (net 1) \<and> net 2 = Responded st b \<and> ok st \<longrightarrow>
      outcome (fetchWithRetry net 3) = Inr (st, b) \<and> attempts (fetchWithRetry net 3) = 3)"
proof (rule conjI; rule impI)
  assume "0 \<le> retries"
  then show "int (attempts (fetchWithRetry net retries)) \<le> retries + 1"
    using fetchLoop_attempts_le[of 0 retries net NoError 0 "[]"] by (simp add: fetchWithRetry_def)
next
  assume a: "retryable (net 0) \<and> retryable (net 1) \<and> net 2 = Responded st b \<and> ok st"
  from a obtain e0 where e0: "tryBlock (net 0) = Raised e0 \<or> tryBlock (net 0) = Assigned e0"
    using tryBlock_retryable by blast
  from a obtain e1 where e1: "tryBlock (net 1) = Raised e1 \<or> tryBlock (net 1) = Assigned e1"
    using tryBlock_retryable by blast
  have s0: "fetchLoop net 3 0 NoError 0 [] = fetchLoop net 3 1 e0 1 [backoff 0]"
    using fetchLoop_step_fail[of 0 3 net 0 e0 NoError "[]"] e0 by simp
  have s1: "fetchLoop net 3 1 e0 1 [backoff 0] = fetchLoop net 3 2 e1 2 [backoff 0, backoff 1]"
    using fetchLoop_step_fail[of 1 3 net 1 e1 e0 "[backoff 0]"] e1 by (simp add: numeral_2_eq_2)
  have s2: "fetchLoop net 3 2 e1 2 [backoff 0, backoff 1] =
      \<lparr>outcome = Inr (st, b), attempts = 3, delays = [backoff 0, backoff 1]\<rparr>"
    using fetchLoop_step_ok[of 2 3 net 2 st b e1 "[backoff 0, backoff 1]"] a
    by (simp add: numeral_3_eq_3 numeral_2_eq_2)
  show "outcome (fetchWithRetry net 3) = Inr (st, b) \<and> attempts (fetchWithRetry net 3) = 3"
    unfolding fetchWithRetry_def s0 s1 s2 by simp
qed

theorem fetchWithRetry_budget_witness:
  "(0::int) \<le> 3 \<and> int (attempts (fetchWithRetry flaky 3)) \<le> 3 + 1 \<and>
   retryable (flaky 0) \<and> retryable (flaky 1) \<and> flaky 2 = Responded 200 ''page'' \<and> ok 200 \<and>
   outcome (fetchWithRetry flaky 3) = Inr (200, ''page'') \<and> attempts (fetchWithRetry flaky 3) = 3"
  using fetchWithRetry_budget[of 3 flaky 200 "''page''"]
  by (simp add: flaky_def retryable_def ok_def)

text \<open>
  C2. The claim is that a 4xx status other than 429 fails at once, after one attempt. In the
  code the error raised for such a status is raised inside the \<open>try\<close> block and caught by
  its own \<open>catch\<close>, so the loop goes on: with \<open>retries = 3\<close> a server that always answers 404
  is called four times, with all three back-off delays, before the error is raised.
\<close>

theorem fetchWithRetry_404_retried:
  "fetchWithRetry (\<lambda>k. Responded 404 ''Not Found'') 3 =
     \<lparr>outcome = Inl (HttpError 404), attempts = 4, delays = [1000, 2000, 4000]\<rparr>"
  by (simp add: fetchWithRetry_def fetchLoop.simps tryBlock_def ok_def backoff_def)

section \<open>Properties of the query-to-path mapping\<close>

lemma splitOn_nonempty: "splitOn c s \<noteq> []"
  by (induction s) (auto split: list.splits)

lemma splitOn_chars: "p \<in> set (splitOn c s) \<Longrightarrow> set p \<subseteq> set s - {c}"
proof (induction s arbitrary: p)
  case Nil
  then show ?case by simp
next
  case (Cons x xs)
  show ?case
  proof (cases "x = c")
    case True
    with Cons show ?thesis by auto
  next
    case False
    obtain h t where ht: "splitOn c xs = h # t"
      using splitOn_nonempty[of c xs] by (cases "splitOn c xs") auto
    from Cons.prems False ht have "p = x # h \<or> p \<in> set t" by auto
    then show ?thesis
    proof
      assume "p = x # h"
      moreover have "set h \<subseteq> set xs - {c}" using Cons.IH[of h] ht by simp
      ultimately show ?thesis using False by auto
    next
      assume "p \<in> set t"
      then have "set p \<subseteq> set xs - {c}" using Cons.IH[of p] ht by simp
      then show ?thesis by auto
    qed
  qed
qed

lemma splitOn_absent: "c \<notin> set s \<Longrightarrow> splitOn c s = [s]"
  by (induction s) auto

lemma queryParamsToPath_no_query:
  "CHR ''?'' \<notin> set s \<Longrightarrow> queryParamsToPath ck s = s"
  by (simp add: queryParamsToPath_def searchOf_def pathnameOf_def splitOn_absent)

lemma percentDecode_no_percent: "CHR ''%'' \<notin> set s \<Longrightarrow> percentDecode s = s"
  by (induction s rule: percentDecode.induct) auto

lemma utf8Decode_chars:
  "x \<in> set (utf8Decode needed lo hi pend bs) \<Longrightarrow>
   x \<in> set pend \<or> x \<in> set bs \<or> x \<in> set replacementChar"
proof (induction bs arbitrary: needed lo hi pend)
  case Nil
  then show ?case by (simp split: if_splits)
next
  case (Cons b bs)
  from Cons.prems show ?case
    by (auto simp: Let_def split: if_splits dest!: Cons.IH)
qed


lemma question_not_replacement: "CHR ''?'' \<notin> set replacementChar"
  by (simp add: replacementChar_def)

lemma formDecode_no_question:
  assumes "CHR ''?'' \<notin> set s" and "CHR ''%'' \<notin> set s"
  shows "CHR ''?'' \<notin> set (formDecode s)"
proof
  let ?m = "map (\<lambda>c. if c = CHR ''+'' then CHR '' '' else c) s"
  assume "CHR ''?'' \<in> set (formDecode s)"
  moreover have "CHR ''%'' \<notin> set ?m" using assms(2) by auto
  ultimately have "CHR ''?'' \<in> set (utf8Decode 0 0x80 0xBF [] ?m)"
    by (simp add: formDecode_def percentDecode_no_percent)
  then have "CHR ''?'' \<in> set ?m"
    using utf8Decode_chars[of "CHR ''?''" 0 "0x80" "0xBF" "[]" ?m] question_not_replacement by auto
  with assms(1) show False by auto
qed

lemma parsePair_no_question:
  assumes "CHR ''?'' \<notin> set piece" and "CHR ''%'' \<notin> set piece"
  shows "CHR ''?'' \<notin> set (fst (parsePair piece)) \<and> CHR ''?'' \<notin> set (snd (parsePair piece))"
proof -
  have "set (takeWhile (\<lambda>c. c \<noteq> CHR ''='') piece) \<subseteq> set piece"
    by (auto dest: set_takeWhileD)
  moreover have "set (drop 1 (dropWhile (\<lambda>c. c \<noteq> CHR ''='') piece)) \<subseteq> set piece"
    by (meson set_drop_subset set_dropWhileD subsetI subset_trans in_mono)
  ultimately show ?thesis using assms
    unfolding parsePair_def fst_conv snd_conv
    by (intro conjI formDecode_no_question) auto
qed

lemma urlSearchParams_no_question:
  assumes "CHR ''?'' \<notin> set q" and "CHR ''%'' \<notin> set q" and "p \<in> set (urlSearchParams q)"
  shows "CHR ''?'' \<notin> set (fst p) \<and> CHR ''?'' \<notin> set (snd p)"
proof -
  let ?init = "case q of [] \<Rightarrow> [] | c # cs \<Rightarrow> if c = CHR ''?'' then cs else q"
  have "set ?init \<subseteq> set q" by (auto split: list.splits)
  from assms(3) obtain piece where piece: "piece \<in> set (splitOn CHR ''&'' ?init)" "p = parsePair piece"
    by (auto simp: urlSearchParams_def)
  from piece(1) have "set piece \<subseteq> set ?init" using splitOn_chars by blast
  with \<open>set ?init \<subseteq> set q\<close> have "set piece \<subseteq> set q" by blast
  with assms(1,2) have "CHR ''?'' \<notin> set piece" "CHR ''%'' \<notin> set piece" by auto
  then show ?thesis using parsePair_no_question piece(2) by blast
qed

lemma joinWith_chars: "set (joinWith sep ps) \<subseteq> set sep \<union> \<Union> (set ` set ps)"
  by (induction sep ps rule: joinWith.induct) auto

lemma keptParams_subset: "set (keptParams ck q) \<subseteq> set (urlSearchParams q)"
  by (auto simp: keptParams_def sortedParams_def)

lemma stripTrailingSlash_chars: "set (stripTrailingSlash s) \<subseteq> set s"
  by (auto simp: stripTrailingSlash_def dest: in_set_butlastD)

lemma pathnameOf_no_question: "CHR ''?'' \<notin> set (pathnameOf u)"
proof -
  have "hd (splitOn CHR ''?'' u) \<in> set (splitOn CHR ''?'' u)"
    using splitOn_nonempty by simp
  then show ?thesis unfolding pathnameOf_def using splitOn_chars by fastforce
qed

lemma searchOf_chars: "searchOf u = Some q \<Longrightarrow> set q \<subseteq> set u - {CHR ''?''}"
proof -
  assume a: "searchOf u = Some q"
  then have "q \<in> set (tl (splitOn CHR ''?'' u))"
    by (auto simp: searchOf_def split: list.splits)
  then have "q \<in> set (splitOn CHR ''?'' u)"
    by (meson list.set_sel(2) splitOn_nonempty)
  then show ?thesis using splitOn_chars by blast
qed

lemma queryParamsToPath_no_question:
  assumes "CHR ''%'' \<notin> set u"
  shows "CHR ''?'' \<notin> set (queryParamsToPath ck u)"
proof (cases "searchOf u")
  case None
  then show ?thesis by (simp add: queryParamsToPath_def pathnameOf_no_question)
next
  case (Some q)
  have q: "CHR ''?'' \<notin> set q" "CHR ''%'' \<notin> set q"
    using searchOf_chars[OF Some] assms by auto
  have parts: "CHR ''?'' \<notin> set (joinWith ''-'' (map renderParam (keptParams ck q)))"
  proof
    assume "CHR ''?'' \<in> set (joinWith ''-'' (map renderParam (keptParams ck q)))"
    then obtain p where p: "p \<in> set (keptParams ck q)" "CHR ''?'' \<in> set (renderParam p)"
      using joinWith_chars[of "''-''" "map renderParam (keptParams ck q)"] by auto
    from p(1) have "p \<in> set (urlSearchParams q)" using keptParams_subset by blast
    then have "CHR ''?'' \<notin> set (fst p) \<and> CHR ''?'' \<notin> set (snd p)"
      using urlSearchParams_no_question[OF q] by blast
    with p(2) show False by (auto simp: renderParam_def)
  qed
  have strip: "CHR ''?'' \<notin> set (stripTrailingSlash (pathnameOf u))"
    using stripTrailingSlash_chars pathnameOf_no_question by blast
  show ?thesis
    using Some parts strip pathnameOf_no_question
    by (simp add: queryParamsToPath_def)
qed

lemma queryParamsToPath_no_question_kept:
  assumes "\<forall>q p. searchOf u = Some q \<and> p \<in> set (keptParams ck q) \<longrightarrow>
             CHR ''?'' \<notin> set (fst p) \<and> CHR ''?'' \<notin> set (snd p)"
  shows "CHR ''?'' \<notin> set (queryParamsToPath ck u)"
proof (cases "searchOf u")
  case None
  then show ?thesis by (simp add: queryParamsToPath_def pathnameOf_no_question)
next
  case (Some q)
  have parts: "CHR ''?'' \<notin> set (joinWith ''-'' (map renderParam (keptParams ck q)))"
  proof
    assume "CHR ''?'' \<in> set (joinWith ''-'' (map renderParam (keptParams ck q)))"
    then obtain p where p: "p \<in> set (keptParams ck q)" "CHR ''?'' \<in> set (renderParam p)"
      using joinWith_chars[of "''-''" "map renderParam (keptParams ck q)"] by auto
    from p(1) Some assms have "CHR ''?'' \<notin> set (fst p) \<and> CHR ''?'' \<notin> set (snd p)"
      by blast
    with p(2) show False by (auto simp: renderParam_def)
  qed
  have strip: "CHR ''?'' \<notin> set (stripTrailingSlash (pathnameOf u))"
    using stripTrailingSlash_chars pathnameOf_no_question by blast
  show ?thesis
    using Some parts strip pathnameOf_no_question
    by (simp add: queryParamsToPath_def)
qed

text \<open>
  C6 (as amended). \<open>queryParamsToPath\<close> is idempotent on every input whose rendered
  parameters (those of the query with a non-empty value, after decoding) have no \<open>?\<close> in
  their keys and values: the result then contains no \<open>?\<close>, and a string without \<open>?\<close> is
  returned as it is. Percent-encoded input is not excluded, only an encoded \<open>?\<close> in a
  rendered key or value.
\<close>

theorem queryParamsToPath_idempotent:
  "(\<forall>q p. searchOf u = Some q \<and> p \<in> set (keptParams ck q) \<longrightarrow>
           CHR ''?'' \<notin> set (fst p) \<and> CHR ''?'' \<notin> set (snd p)) \<Longrightarrow>
   queryParamsToPath ck (queryParamsToPath ck u) = queryParamsToPath ck u"
  by (rule queryParamsToPath_no_query) (rule queryParamsToPath_no_question_kept)

lemma example_encoded_search:
  "searchOf ''/caf%C3%A9/?q=hello%20world&page=2'' = Some ''q=hello%20world&page=2''"
  by code_simp

lemma example_encoded_kept:
  "keptParams byteOrderKey ''q=hello%20world&page=2'' = [(''page'', ''2''), (''q'', ''hello world'')]"
  by code_simp

theorem queryParamsToPath_idempotent_witness:
  "searchOf ''/caf%C3%A9/?q=hello%20world&page=2'' = Some ''q=hello%20world&page=2'' \<and>
   keptParams byteOrderKey ''q=hello%20world&page=2'' = [(''page'', ''2''), (''q'', ''hello world'')] \<and>
   CHR ''?'' \<notin> set ''page'' \<and> CHR ''?'' \<notin> set ''2'' \<and>
   CHR ''?'' \<notin> set ''q'' \<and> CHR ''?'' \<notin> set ''hello world'' \<and>
   queryParamsToPath byteOrderKey
     (queryParamsToPath byteOrderKey ''/caf%C3%A9/?q=hello%20world&page=2'') =
   queryParamsToPath byteOrderKey ''/caf%C3%A9/?q=hello%20world&page=2''"
  using queryParamsToPath_idempotent[of "''/caf%C3%A9/?q=hello%20world&page=2''" byteOrderKey]
  by (simp add: example_encoded_search example_encoded_kept)

text \<open>
  C6 (as stated) fails: keys and values are percent-decoded, so an encoded \<open>?\<close> (\<open>%3F\<close>) comes
  out as a \<open>?\<close> in the result, and a second pass reads what follows it as a query.
\<close>

theorem queryParamsToPath_not_idempotent:
  "queryParamsToPath byteOrderKey ''/a?k=%3Fz%3D1'' = ''/a/k-?z=1/'' \<and>
   queryParamsToPath byteOrderKey (queryParamsToPath byteOrderKey ''/a?k=%3Fz%3D1'') = ''/a/k-/z-1//'' \<and>
   queryParamsToPath byteOrderKey (queryParamsToPath byteOrderKey ''/a?k=%3Fz%3D1'') \<noteq>
     queryParamsToPath byteOrderKey ''/a?k=%3Fz%3D1''"
  by code_simp

lemma example_params: "urlSearchParams ''x=&y=1'' = [(''x'', ''''), (''y'', ''1'')]"
  by code_simp

lemma example_split: "splitOn CHR ''?'' ''/a?x=&y=1'' = [''/a'', ''x=&y=1'']"
  by code_simp

lemma queryParamsToPath_example: "queryParamsToPath ck ''/a?x=&y=1'' = ''/a/y-1/''"
  by (simp add: queryParamsToPath_def searchOf_def pathnameOf_def example_split keptParams_def
      sortedParams_def example_params renderParam_def stripTrailingSlash_def)

text \<open>
  C4 (as amended). For a path with a non-empty query \<open>q\<close> (the text between the first and
  the second \<open>?\<close>), the parameters that are rendered are those of \<open>q\<close> with a non-empty value,
  in ascending order of the collation key of their names (the order of \<open>localeCompare\<close>),
  parameters with equal keys in their original order. When at least one is left, the result
  is the path portion without one trailing slash, followed by the segment of the
  \<open>key-value\<close> pairs joined by \<open>-\<close> between two slashes; when none is left, it is the path
  portion unchanged. And \<open>/a?x=&y=1\<close> maps to \<open>/a/y-1/\<close> whatever the collation.
\<close>

theorem queryParamsToPath_sorts_by_collation:
  "(searchOf u = Some q \<and> q \<noteq> [] \<longrightarrow>
      sorted (map (\<lambda>p. ck (fst p)) (keptParams ck q)) \<and>
      mset (keptParams ck q) = filter_mset (\<lambda>p. snd p \<noteq> []) (mset (urlSearchParams q)) \<and>
      (\<forall>k. filter (\<lambda>p. ck (fst p) = k) (keptParams ck q) =
           filter (\<lambda>p. ck (fst p) = k) (filter (\<lambda>p. snd p \<noteq> []) (urlSearchParams q))) \<and>
      (keptParams ck q \<noteq> [] \<longrightarrow>
         queryParamsToPath ck u =
           stripTrailingSlash (pathnameOf u) @ ''/'' @
           joinWith ''-'' (map renderParam (keptParams ck q)) @ ''/'') \<and>
      (keptParams ck q = [] \<longrightarrow> queryParamsToPath ck u = pathnameOf u)) \<and>
   queryParamsToPath ck ''/a?x=&y=1'' = ''/a/y-1/''"
proof (intro conjI impI allI)
  show "queryParamsToPath ck ''/a?x=&y=1'' = ''/a/y-1/''" by (rule queryParamsToPath_example)
next
  show "sorted (map (\<lambda>p. ck (fst p)) (keptParams ck q))"
    unfolding keptParams_def sortedParams_def
    by (simp add: sorted_filter)
next
  show "mset (keptParams ck q) = filter_mset (\<lambda>p. snd p \<noteq> []) (mset (urlSearchParams q))"
    by (simp add: keptParams_def sortedParams_def)
next
  fix k
  have "filter (\<lambda>p. ck (fst p) = k) (keptParams ck q) =
        filter (\<lambda>p. snd p \<noteq> []) (filter (\<lambda>p. ck (fst p) = k) (sortedParams ck q))"
    by (simp add: keptParams_def conj_commute)
  also have "filter (\<lambda>p. ck (fst p) = k) (sortedParams ck q) =
             filter (\<lambda>p. ck (fst p) = k) (urlSearchParams q)"
    unfolding sortedParams_def by (rule sort_key_stable)
  finally show "filter (\<lambda>p. ck (fst p) = k) (keptParams ck q) =
        filter (\<lambda>p. ck (fst p) = k) (filter (\<lambda>p. snd p \<noteq> []) (urlSearchParams q))"
    by (simp add: conj_commute)
next
  assume "searchOf u = Some q \<and> q \<noteq> []" "keptParams ck q \<noteq> []"
  then show "queryParamsToPath ck u =
           stripTrailingSlash (pathnameOf u) @ ''/'' @
           joinWith ''-'' (map renderParam (keptParams ck q)) @ ''/''"
    by (simp add: queryParamsToPath_def)
next
  assume "searchOf u = Some q \<and> q \<noteq> []" "keptParams ck q = []"
  then show "queryParamsToPath ck u = pathnameOf u"
    by (simp add: queryParamsToPath_def)
qed

lemma example_search: "searchOf ''/p/?B=1&a=2&c='' = Some ''B=1&a=2&c=''" by code_simp
lemma example_kept: "keptParams letterCollationKey ''B=1&a=2&c='' = [(''a'', ''2''), (''B'', ''1'')]" by code_simp
lemma example_pathname: "pathnameOf ''/p/?B=1&a=2&c='' = ''/p/''" by code_simp

theorem queryParamsToPath_sorts_by_collation_witness:
  "searchOf ''/p/?B=1&a=2&c='' = Some ''B=1&a=2&c='' \<and> ''B=1&a=2&c='' \<noteq> [] \<and>
   keptParams letterCollationKey ''B=1&a=2&c='' = [(''a'', ''2''), (''B'', ''1'')] \<and>
   sorted (map (\<lambda>p. letterCollationKey (fst p)) [(''a'', ''2''), (''B'', ''1'')]) \<and>
   queryParamsToPath letterCollationKey ''/p/?B=1&a=2&c='' = ''/p/a-2-B-1/''"
  using queryParamsToPath_sorts_by_collation[of "''/p/?B=1&a=2&c=''" "''B=1&a=2&c=''" letterCollationKey]
  by (simp add: example_search example_kept example_pathname stripTrailingSlash_def renderParam_def)

text \<open>
  C4 (as stated) fails: the order is the collation's, not the byte order. \<open>B\<close> is before \<open>a\<close>
  in byte order, and \<open>a\<close> is before \<open>B\<close> for \<open>localeCompare\<close>.
\<close>

theorem queryParamsToPath_not_byte_order:
  "byteOrderKey ''B'' < byteOrderKey ''a'' \<and>
   queryParamsToPath letterCollationKey ''/p?B=1&a=2'' = ''/p/a-2-B-1/'' \<and>
   queryParamsToPath letterCollationKey ''/p?B=1&a=2'' \<noteq> queryParamsToPath byteOrderKey ''/p?B=1&a=2''"
  by code_simp

section \<open>Properties of the path normalisers\<close>

lemma startsWith_slash: "startsWith s ''/'' \<longleftrightarrow> (s \<noteq> [] \<and> hd s = CHR ''/'')"
  by (cases s) (auto simp: startsWith_def)

lemma endsWith_slash: "endsWith s ''/'' \<longleftrightarrow> (s \<noteq> [] \<and> last s = CHR ''/'')"
proof (cases s rule: rev_cases)
  case Nil
  then show ?thesis by (simp add: endsWith_def)
next
  case (snoc ys y)
  then show ?thesis by (auto simp: endsWith_def)
qed

lemma ensureLeadingSlash_starts: "startsWith (ensureLeadingSlash p) ''/''"
  by (simp add: ensureLeadingSlash_def startsWith_def)

lemma ensureLeadingSlash_chars: "set (ensureLeadingSlash p) \<subseteq> insert CHR ''/'' (set p)"
  by (auto simp: ensureLeadingSlash_def)

lemma startsWith_append: "startsWith p ''/'' \<Longrightarrow> startsWith (p @ s) ''/''"
  by (cases p) (auto simp: startsWith_def)

lemma normalizeUrl_starts: "startsWith (normalizeUrl U s) ''/''"
  by (auto simp: normalizeUrl_def Let_def ensureLeadingSlash_starts startsWith_append
      split: option.splits)

lemma hasFileExtension_dot: 
  assumes "hasFileExtension p" shows "CHR ''.'' \<in> set p"
proof -
  let ?front = "rev (dropWhile isAlnum (rev p))"
  from assms have "?front \<noteq> []" "last ?front = CHR ''.''"
    by (simp_all add: hasFileExtension_def Let_def)
  then have "CHR ''.'' \<in> set ?front" using last_in_set by metis
  then have "CHR ''.'' \<in> set (dropWhile isAlnum (rev p))" by simp
  then have "CHR ''.'' \<in> set (rev p)" by (rule set_dropWhileD)
  then show ?thesis by simp
qed

lemma endsWith_chars: "endsWith s p \<Longrightarrow> set p \<subseteq> set s"
  unfolding endsWith_def by (metis set_drop_subset)

lemma normalizeUrl_ends: "CHR ''.'' \<notin> set (normalizeUrl U s) \<Longrightarrow> endsWith (normalizeUrl U s) ''/''"
proof (cases "U s (Some ''http://dummy'')")
  case (Some u)
  let ?p = "ensureLeadingSlash (url_pathname u)"
  assume a: "CHR ''.'' \<notin> set (normalizeUrl U s)"
  have r: "normalizeUrl U s =
      (if \<not> endsWith ?p ''.html'' \<and> \<not> endsWith ?p ''.htm'' \<and> CHR ''.'' \<notin> set ?p
       then (if \<not> endsWith ?p ''/'' then ?p @ ''/'' else ?p) else ?p)"
    using Some by (simp add: normalizeUrl_def Let_def)
  have html: "endsWith ?p ''.html'' \<Longrightarrow> CHR ''.'' \<in> set ?p"
    using endsWith_chars[of ?p "''.html''"] by auto
  have htm: "endsWith ?p ''.htm'' \<Longrightarrow> CHR ''.'' \<in> set ?p"
    using endsWith_chars[of ?p "''.htm''"] by auto
  show ?thesis
  proof (cases "CHR ''.'' \<in> set ?p")
    case True
    then have "normalizeUrl U s = ?p" using r by simp
    with a True show ?thesis by simp
  next
    case False
    then have "normalizeUrl U s = (if \<not> endsWith ?p ''/'' then ?p @ ''/'' else ?p)"
      using r html htm by auto
    then show ?thesis by (auto simp: endsWith_slash)
  qed
next
  case None
  let ?p = "ensureLeadingSlash (hd (splitOn CHR ''#'' (hd (splitOn CHR ''?'' s))))"
  assume a: "CHR ''.'' \<notin> set (normalizeUrl U s)"
  have "\<not> hasFileExtension ?p"
  proof
    assume h: "hasFileExtension ?p"
    then have r: "normalizeUrl U s = ?p" using None by (simp add: normalizeUrl_def Let_def)
    from h have "CHR ''.'' \<in> set ?p" by (rule hasFileExtension_dot)
    with a r show False by simp
  qed
  with None show ?thesis
    by (auto simp: normalizeUrl_def Let_def endsWith_slash)
qed

lemma splitOn_hd_chars: "set (hd (splitOn c s)) \<subseteq> set s - {c}"
proof -
  have "hd (splitOn c s) \<in> set (splitOn c s)" using splitOn_nonempty by simp
  then show ?thesis by (rule splitOn_chars)
qed

lemma normalizeUrl_fallback:
  assumes "U s (Some ''http://dummy'') = None"
  shows "CHR ''#'' \<notin> set (normalizeUrl U s) \<and> CHR ''?'' \<notin> set (normalizeUrl U s) \<and>
         (\<not> hasFileExtension (normalizeUrl U s) \<longrightarrow> endsWith (normalizeUrl U s) ''/'')"
proof -
  let ?q = "hd (splitOn CHR ''#'' (hd (splitOn CHR ''?'' s)))"
  let ?p = "ensureLeadingSlash ?q"
  have "set ?q \<subseteq> set (hd (splitOn CHR ''?'' s)) - {CHR ''#''}" by (rule splitOn_hd_chars)
  moreover have "set (hd (splitOn CHR ''?'' s)) \<subseteq> set s - {CHR ''?''}" by (rule splitOn_hd_chars)
  ultimately have "CHR ''#'' \<notin> set ?q" "CHR ''?'' \<notin> set ?q" by auto
  then have p: "CHR ''#'' \<notin> set ?p" "CHR ''?'' \<notin> set ?p"
    using ensureLeadingSlash_chars[of ?q] by auto
  have r: "normalizeUrl U s = (if \<not> hasFileExtension ?p \<and> \<not> endsWith ?p ''/'' then ?p @ ''/'' else ?p)"
    using assms by (simp add: normalizeUrl_def Let_def)
  show ?thesis
  proof (cases "\<not> hasFileExtension ?p \<and> \<not> endsWith ?p ''/''")
    case True
    then have "normalizeUrl U s = ?p @ ''/''" using r by simp
    then show ?thesis using p by (simp add: endsWith_slash)
  next
    case False
    then have "normalizeUrl U s = ?p" using r by simp
    then show ?thesis using p False by auto
  qed
qed

lemma normalizeUrl_hash_from_parser:
  assumes "CHR ''#'' \<in> set (normalizeUrl U s)"
  shows "\<exists>u. U s (Some ''http://dummy'') = Some u \<and> CHR ''#'' \<in> set (url_pathname u)"
proof (cases "U s (Some ''http://dummy'')")
  case None
  then show ?thesis using normalizeUrl_fallback[of U s] assms by simp
next
  case (Some u)
  with assms have "CHR ''#'' \<in> set (ensureLeadingSlash (url_pathname u))"
    by (auto simp: normalizeUrl_def Let_def split: if_splits)
  then have "CHR ''#'' \<in> set (url_pathname u)" using ensureLeadingSlash_chars[of "url_pathname u"] by auto
  with Some show ?thesis by simp
qed

lemma queryParamsToPath_keeps_leading_slash:
  assumes "startsWith u ''/''"
  shows "startsWith (queryParamsToPath ck u) ''/''"
proof -
  from assms obtain t where u: "u = CHR ''/'' # t" by (cases u) (auto simp: startsWith_def)
  obtain h r where sp: "splitOn CHR ''?'' t = h # r"
    using splitOn_nonempty[of "CHR ''?''" t] by (cases "splitOn CHR ''?'' t") auto
  have pn: "pathnameOf u = CHR ''/'' # h" by (simp add: pathnameOf_def u sp)
  have st: "startsWith (stripTrailingSlash (CHR ''/'' # h) @ ''/'' @ x) ''/''" for x
    by (cases h rule: rev_cases) (auto simp: stripTrailingSlash_def startsWith_def)
  show ?thesis
    unfolding queryParamsToPath_def pn using st
    by (auto simp: startsWith_def split: option.splits)
qed

lemma normalizeUrl_no_hash:
  assumes "\<forall>u. U s (Some ''http://dummy'') = Some u \<longrightarrow> CHR ''#'' \<notin> set (url_pathname u)"
  shows "CHR ''#'' \<notin> set (normalizeUrl U s)"
  using assms normalizeUrl_hash_from_parser[of U s] by blast

text \<open>
  C5 (as amended). The leading slash, the trailing slash and the absence of a fragment are
  established by \<open>normalizeUrl\<close>, which only sitemap entries pass through. For every parser
  and input its result begins with \<open>/\<close>. It never contains a \<open>#\<close>, given that the pathname the
  URL parser returns for the input contains none (the URL standard ends the path at the
  \<open>#\<close>); where the parser raises, the fallback cuts the input at the first \<open>?\<close> and \<open>#\<close>. It
  ends with \<open>/\<close> whenever it contains no dot (the test of the main branch is for a dot
  anywhere, not for a file extension) and, in the fallback branch, whenever it has no file
  extension. \<open>queryParamsToPath\<close>, which decides the output file, performs none of the three
  steps: an input without \<open>?\<close> is returned unchanged, and a leading \<open>/\<close> of the input is kept.
\<close>

theorem canonical_path_shape:
  "startsWith (normalizeUrl U s) ''/'' \<and>
   ((\<forall>u. U s (Some ''http://dummy'') = Some u \<longrightarrow> CHR ''#'' \<notin> set (url_pathname u)) \<longrightarrow>
      CHR ''#'' \<notin> set (normalizeUrl U s)) \<and>
   (CHR ''.'' \<notin> set (normalizeUrl U s) \<longrightarrow> endsWith (normalizeUrl U s) ''/'') \<and>
   (U s (Some ''http://dummy'') = None \<longrightarrow>
      CHR ''#'' \<notin> set (normalizeUrl U s) \<and> CHR ''?'' \<notin> set (normalizeUrl U s) \<and>
      (\<not> hasFileExtension (normalizeUrl U s) \<longrightarrow> endsWith (normalizeUrl U s) ''/'')) \<and>
   (CHR ''?'' \<notin> set x \<longrightarrow> queryParamsToPath ck x = x) \<and>
   (startsWith x ''/'' \<longrightarrow> startsWith (queryParamsToPath ck x) ''/'')"
  using normalizeUrl_starts normalizeUrl_ends normalizeUrl_no_hash normalizeUrl_fallback
    queryParamsToPath_no_query queryParamsToPath_keeps_leading_slash
  by blast

text \<open>
  The theorem at inputs where the example parser agrees with the host: \<open>/a#b\<close>, whose
  pathname is \<open>/a\<close>, and \<open>http://?x#y\<close>, which has no host, so that \<open>new URL\<close> raises and the
  fallback runs.
\<close>

lemma example_parse_fragment:
  "simpleParser ''/a#b'' (Some ''http://dummy'') =
     Some \<lparr>url_origin = ''http://dummy'', url_pathname = ''/a'', url_search = [], url_hash = ''#b''\<rparr>"
  by code_simp

lemma example_parse_no_host: "simpleParser ''http://?x#y'' (Some ''http://dummy'') = None"
  by code_simp

theorem canonical_path_shape_witness:
  "simpleParser ''/a#b'' (Some ''http://dummy'') =
     Some \<lparr>url_origin = ''http://dummy'', url_pathname = ''/a'', url_search = [], url_hash = ''#b''\<rparr> \<and>
   CHR ''#'' \<notin> set ''/a'' \<and>
   normalizeUrl simpleParser ''/a#b'' = ''/a/'' \<and>
   CHR ''#'' \<notin> set (normalizeUrl simpleParser ''/a#b'') \<and>
   CHR ''.'' \<notin> set (normalizeUrl simpleParser ''/a#b'') \<and>
   endsWith (normalizeUrl simpleParser ''/a#b'') ''/'' \<and>
   simpleParser ''http://?x#y'' (Some ''http://dummy'') = None \<and>
   normalizeUrl simpleParser ''http://?x#y'' = ''/http://'' \<and>
   CHR ''#'' \<notin> set (normalizeUrl simpleParser ''http://?x#y'') \<and>
   CHR ''?'' \<notin> set (normalizeUrl simpleParser ''http://?x#y'') \<and>
   \<not> hasFileExtension (normalizeUrl simpleParser ''http://?x#y'') \<and>
   endsWith (normalizeUrl simpleParser ''http://?x#y'') ''/'' \<and>
   CHR ''?'' \<notin> set ''/about'' \<and> startsWith ''/about'' ''/'' \<and>
   queryParamsToPath byteOrderKey ''/about'' = ''/about'' \<and>
   startsWith (queryParamsToPath byteOrderKey ''/about'') ''/''"
proof -
  have a: "normalizeUrl simpleParser ''/a#b'' = ''/a/''" by code_simp
  have c: "normalizeUrl simpleParser ''http://?x#y'' = ''/http://''" by code_simp
  have d: "\<not> hasFileExtension ''/http://''" by code_simp
  have e: "startsWith ''/about'' ''/''" by code_simp
  show ?thesis
    using canonical_path_shape[of simpleParser "''/a#b''" "''/about''" byteOrderKey]
      canonical_path_shape[of simpleParser "''http://?x#y''" "''/about''" byteOrderKey]
    by (simp add: a c d e example_parse_fragment example_parse_no_host)
qed

text \<open>
  C5 (as stated) fails. For the function that decides output paths: a crawled link \<open>/about\<close>
  keeps its form (no trailing slash, though it has no file extension), and an input with a
  fragment and no leading slash keeps both. For \<open>normalizeUrl\<close>: a path with a dot in a
  directory name has no file extension and gets no trailing slash.
\<close>

theorem queryParamsToPath_keeps_shape:
  "queryParamsToPath byteOrderKey ''/about'' = ''/about'' \<and>
   \<not> hasFileExtension ''/about'' \<and> \<not> endsWith ''/about'' ''/'' \<and>
   queryParamsToPath byteOrderKey ''about#top'' = ''about#top'' \<and>
   \<not> startsWith ''about#top'' ''/'' \<and> CHR ''#'' \<in> set ''about#top'' \<and>
   normalizeUrl simpleParser ''/v1.0/about'' = ''/v1.0/about'' \<and>
   \<not> hasFileExtension ''/v1.0/about'' \<and> \<not> endsWith ''/v1.0/about'' ''/''"
  by code_simp

section \<open>Failure semantics of sitemap discovery\<close>

lemma generateSitemap_pages_fatal:
  "aposKey \<noteq> [] \<Longrightarrow> fetchAllPages U api aposHost locale = Inl e \<Longrightarrow>
   generateSitemap U api aposHost aposKey locale pieceTypes = Some (Inl e)"
  by (simp add: generateSitemap_def)

lemma fetchAllPages_rejected:
  "api (pagesRequest aposHost locale) = Rejected m \<Longrightarrow>
   fetchAllPages U api aposHost locale = Inl (FetchRejected m)"
  by (simp add: fetchAllPages_def)

lemma fetchAllPages_not_ok:
  "api (pagesRequest aposHost locale) = Responded st body \<Longrightarrow> \<not> ok st \<Longrightarrow>
   fetchAllPages U api aposHost locale = Inl (PagesNotOk st)"
  by (simp add: fetchAllPages_def)

lemma probeCandidates_rejected:
  "api (aposHost @ ''/api/v1/'') = Rejected m \<Longrightarrow> probeCandidates api aposHost = []"
  by (simp add: probeCandidates_def)

lemma fetchAllPieces_not_ok:
  "api (piecesRequest aposHost pieceType 1 locale) = Responded st body \<Longrightarrow> \<not> ok st \<Longrightarrow>
   fetchAllPieces U api aposHost pieceType locale = Some (Inr [])"
  by (simp add: fetchAllPieces_def piecesLoop.simps)

lemma fetchAllPieces_rejected:
  "api (piecesRequest aposHost pieceType 1 locale) = Rejected m \<Longrightarrow>
   fetchAllPieces U api aposHost pieceType locale = Some (Inl (FetchRejected m))"
  by (simp add: fetchAllPieces_def piecesLoop.simps)

text \<open>
  C7. The page listing is fatal, a probe is not, and a piece listing answered with an error
  status is not (\<open>errorBackend\<close>: the sitemap holds the pages). But a piece listing whose
  fetch is rejected (a timeout, a network error) is fatal: \<open>fetchAllPieces\<close> awaits
  \<open>fetchWithTimeout\<close> outside any \<open>try\<close>, unlike \<open>probeCandidates\<close> and \<open>isPieceEndpoint\<close>, so
  the rejection leaves \<open>generateSitemap\<close> and the pages already listed are lost
  (\<open>timeoutBackend\<close>).
\<close>

theorem generateSitemap_piece_timeout_fatal:
  "generateSitemap simpleParser timeoutBackend ''http://cms'' ''key'' None (Some [''article'']) =
     Some (Inl (FetchRejected ''This operation was aborted'')) \<and>
   generateSitemap simpleParser errorBackend ''http://cms'' ''key'' None (Some [''article'']) =
     Some (Inr [''/'', ''/about/''])"
  by code_simp

section \<open>Properties of the URL rewriter\<close>

lemma elementsOf_rewriteNode:
  "elementsOf (rewriteNode P U ck n) =
   map (\<lambda>(tag, attrs). (tag, rewriteAttrs P U ck tag attrs)) (elementsOf n)"
proof (induction n)
  case (Element tag attrs kids)
  let ?g = "\<lambda>(tag, attrs). (tag, rewriteAttrs P U ck tag attrs)"
  from Element have eq: "map (\<lambda>k. elementsOf (rewriteNode P U ck k)) kids =
             map (\<lambda>k. map ?g (elementsOf k)) kids"
    by (intro map_cong) auto
  have "elementsOf (rewriteNode P U ck (Element tag attrs kids)) =
        (tag, rewriteAttrs P U ck tag attrs) # concat (map (\<lambda>k. elementsOf (rewriteNode P U ck k)) kids)"
    by (simp add: comp_def)
  also have "\<dots> = (tag, rewriteAttrs P U ck tag attrs) # concat (map (\<lambda>k. map ?g (elementsOf k)) kids)"
    by (rule arg_cong[where f="\<lambda>x. (tag, rewriteAttrs P U ck tag attrs) # concat x", OF eq])
  also have "\<dots> = map ?g (elementsOf (Element tag attrs kids))"
    by (simp add: map_concat comp_def)
  finally show ?case .
qed simp_all

lemma allElements_makeUrlsRelative:
  "allElements (makeUrlsRelative P U ck doc) =
   map (\<lambda>(tag, attrs). (tag, rewriteAttrs P U ck tag attrs)) (allElements doc)"
  by (induction doc) (simp_all add: allElements_def makeUrlsRelative_def elementsOf_rewriteNode)

lemma setAttribute_names:
  "name \<in> fst ` set attrs \<Longrightarrow> map fst (setAttribute name v attrs) = map fst attrs"
proof (induction attrs)
  case Nil
  then show ?case by simp
next
  case (Cons a attrs)
  obtain k w where a: "a = (k, w)" by (cases a)
  show ?case
  proof (cases "k = name")
    case True
    then show ?thesis by (simp add: a)
  next
    case False
    with Cons.prems a have "name \<in> fst ` set attrs" by auto
    with Cons.IH False show ?thesis by (simp add: a)
  qed
qed

lemma setAttribute_others:
  "(k, w) \<in> set attrs \<Longrightarrow> k \<noteq> name \<Longrightarrow> (k, w) \<in> set (setAttribute name v attrs)"
  by (induction attrs) auto

lemma getAttribute_setAttribute:
  "getAttribute (setAttribute name v attrs) k = (if k = name then Some v else getAttribute attrs k)"
  by (induction attrs) (auto simp: getAttribute_def)

lemma getAttribute_in: "getAttribute attrs name = Some v \<Longrightarrow> name \<in> fst ` set attrs"
  unfolding getAttribute_def by (metis map_of_SomeD fst_conv image_eqI)

lemma rewriteAttrs_names: "map fst (rewriteAttrs P U ck tag attrs) = map fst attrs"
proof (cases "selectedAttr tag")
  case None
  then show ?thesis by (simp add: rewriteAttrs_def)
next
  case (Some attr)
  show ?thesis
  proof (cases "getAttribute attrs attr")
    case None
    with Some show ?thesis by (simp add: rewriteAttrs_def)
  next
    case (Some url)
    then have "attr \<in> fst ` set attrs" by (rule getAttribute_in)
    then have "map fst (setAttribute attr v attrs) = map fst attrs" for v
      by (rule setAttribute_names)
    with Some \<open>selectedAttr tag = Some attr\<close> show ?thesis by (simp add: rewriteAttrs_def)
  qed
qed

lemma rewriteAttrs_others:
  assumes "(name, v) \<in> set attrs" and "selectedAttr tag \<noteq> Some name"
  shows "(name, v) \<in> set (rewriteAttrs P U ck tag attrs)"
proof (cases "selectedAttr tag")
  case None
  then show ?thesis using assms(1) by (simp add: rewriteAttrs_def)
next
  case (Some attr)
  with assms(2) have "name \<noteq> attr" by auto
  then have "(name, v) \<in> set (setAttribute attr w attrs)" for w
    using assms(1) setAttribute_others by blast
  with Some assms(1) show ?thesis by (simp add: rewriteAttrs_def split: option.splits)
qed

lemma rewriteUrl_external:
  "\<not> startsWith url P \<Longrightarrow> CHR ''?'' \<notin> set url \<Longrightarrow> rewriteUrl P U ck url = url"
  by (simp add: rewriteUrl_def foldQuery_def)

lemma rewriteAttrs_external:
  assumes "getAttribute attrs name = Some url" and "\<not> startsWith url P" and "CHR ''?'' \<notin> set url"
  shows "getAttribute (rewriteAttrs P U ck tag attrs) name = Some url"
proof (cases "selectedAttr tag")
  case None
  then show ?thesis using assms(1) by (simp add: rewriteAttrs_def)
next
  case (Some attr)
  show ?thesis
  proof (cases "name = attr")
    case True
    have "rewriteUrl P U ck url = url" using assms(2,3) by (simp add: rewriteUrl_external)
    with Some True assms(1) show ?thesis by (simp add: rewriteAttrs_def)
  next
    case False
    with Some assms(1) show ?thesis
      by (simp add: rewriteAttrs_def getAttribute_setAttribute split: option.splits)
  qed
qed


text \<open>
  C8 (as amended). \<open>makeUrlsRelative\<close> keeps the elements of the document, in order, with
  their tags, and changes nothing but attribute values: the names of the attributes of an
  element stay; every attribute other than the \<open>href\<close> of an \<open>a\<close> and the \<open>action\<close> of a \<open>form\<close>
  stays as it is; and an attribute value that does not start with the preview URL and
  contains no \<open>?\<close> stays as it is.
\<close>

theorem makeUrlsRelative_frame:
  "allElements (makeUrlsRelative P U ck doc) =
     map (\<lambda>(tag, attrs). (tag, rewriteAttrs P U ck tag attrs)) (allElements doc) \<and>
   map fst (rewriteAttrs P U ck tag attrs) = map fst attrs \<and>
   ((name, v) \<in> set attrs \<and> selectedAttr tag \<noteq> Some name \<longrightarrow>
      (name, v) \<in> set (rewriteAttrs P U ck tag attrs)) \<and>
   (getAttribute attrs name = Some url \<and> \<not> startsWith url P \<and> CHR ''?'' \<notin> set url \<longrightarrow>
      getAttribute (rewriteAttrs P U ck tag attrs) name = Some url)"
proof (intro conjI impI)
  show "allElements (makeUrlsRelative P U ck doc) =
     map (\<lambda>(tag, attrs). (tag, rewriteAttrs P U ck tag attrs)) (allElements doc)"
    by (rule allElements_makeUrlsRelative)
  show "map fst (rewriteAttrs P U ck tag attrs) = map fst attrs"
    by (rule rewriteAttrs_names)
  show "(name, v) \<in> set (rewriteAttrs P U ck tag attrs)"
    if "(name, v) \<in> set attrs \<and> selectedAttr tag \<noteq> Some name"
    using that rewriteAttrs_others by blast
  show "getAttribute (rewriteAttrs P U ck tag attrs) name = Some url"
    if "getAttribute attrs name = Some url \<and> \<not> startsWith url P \<and> CHR ''?'' \<notin> set url"
    using that rewriteAttrs_external by blast
qed

theorem makeUrlsRelative_frame_witness:
  "(''class'', ''nav'') \<in> set [(''class'', ''nav''), (''href'', ''https://example.com/docs'')] \<and>
   selectedAttr ''a'' \<noteq> Some ''class'' \<and>
   getAttribute [(''class'', ''nav''), (''href'', ''https://example.com/docs'')] ''href'' =
     Some ''https://example.com/docs'' \<and>
   \<not> startsWith ''https://example.com/docs'' ''http://127.0.0.1:4321'' \<and>
   CHR ''?'' \<notin> set ''https://example.com/docs'' \<and>
   (''class'', ''nav'') \<in> set (rewriteAttrs ''http://127.0.0.1:4321'' failingParser byteOrderKey ''a''
      [(''class'', ''nav''), (''href'', ''https://example.com/docs'')]) \<and>
   getAttribute (rewriteAttrs ''http://127.0.0.1:4321'' failingParser byteOrderKey ''a''
      [(''class'', ''nav''), (''href'', ''https://example.com/docs'')]) ''href'' =
     Some ''https://example.com/docs''"
proof -
  have a: "selectedAttr ''a'' \<noteq> Some ''class''" by (simp add: selectedAttr_def)
  have b: "\<not> startsWith ''https://example.com/docs'' ''http://127.0.0.1:4321''"
    by (simp add: startsWith_def)
  have c: "getAttribute [(''class'', ''nav''), (''href'', ''https://example.com/docs'')] ''href'' =
     Some ''https://example.com/docs''" by (simp add: getAttribute_def)
  show ?thesis
    using makeUrlsRelative_frame[of "''http://127.0.0.1:4321''" failingParser byteOrderKey "[]"
        "''a''" "[(''class'', ''nav''), (''href'', ''https://example.com/docs'')]" "''class''" "''nav''"
        "''nav''"]
      makeUrlsRelative_frame[of "''http://127.0.0.1:4321''" failingParser byteOrderKey "[]"
        "''a''" "[(''class'', ''nav''), (''href'', ''https://example.com/docs'')]" "''href''"
        "''https://example.com/docs''" "''https://example.com/docs''"]
      a b c
    by simp
qed

text \<open>
  C8 (as stated) fails: the query of every \<open>href\<close> and \<open>action\<close> is folded into the path,
  whether or not the URL points at the preview host. A link to an external search page is
  rewritten.
\<close>

theorem makeUrlsRelative_rewrites_external:
  "\<not> startsWith ''https://example.com/search?q=1'' ''http://127.0.0.1:4321'' \<and>
   makeUrlsRelative ''http://127.0.0.1:4321'' failingParser byteOrderKey
     [Element ''a'' [(''href'', ''https://example.com/search?q=1'')] [Text ''Search'']] =
     [Element ''a'' [(''href'', ''https://example.com/search/q-1/'')] [Text ''Search'']]"
  by code_simp

section \<open>Properties of the bounded executor\<close>

lemma rejected_append [simp]: "rejected (xs @ ys) = rejected xs @ rejected ys"
  by (simp add: rejected_def)
lemma fulfilled_append [simp]: "fulfilled (xs @ ys) = fulfilled xs @ fulfilled ys"
  by (simp add: fulfilled_def)
lemma awaited_append [simp]: "awaited (xs @ ys) = awaited xs @ awaited ys"
  by (simp add: awaited_def)
lemma uncounted_append [simp]: "uncounted (xs @ ys) = uncounted xs @ uncounted ys"
  by (simp add: uncounted_def)
lemma rejected_simps [simp]:
  "rejected [] = []" "rejected ((x, None) # log) = rejected log"
  "rejected ((x, Some m) # log) = (x, m) # rejected log"
  by (simp_all add: rejected_def)
lemma fulfilled_simps [simp]:
  "fulfilled [] = []" "fulfilled ((x, None) # log) = x # fulfilled log"
  "fulfilled ((x, Some m) # log) = fulfilled log"
  by (simp_all add: fulfilled_def)
lemma awaited_simps [simp]:
  "awaited [] = []" "awaited (Waiting x t # rs) = x # awaited rs"
  "awaited (Settled x out # rs) = awaited rs"
  by (simp_all add: awaited_def)
lemma uncounted_simps [simp]:
  "uncounted [] = []" "uncounted (Waiting x t # rs) = uncounted rs"
  "uncounted (Settled x out # rs) = (x, out) # uncounted rs"
  by (simp_all add: uncounted_def)


lemma runners_split:
  "i < length (runners p) \<Longrightarrow>
   runners p = take i (runners p) @ [runners p ! i] @ drop (Suc i) (runners p)"
  by (simp add: id_take_nth_drop)

lemma launch_cases:
  obtains (suspended) s t where "invoke W item (shared p) = (s, Inl t)"
      "launch W item p = (p\<lparr>shared := s, invoked := invoked p @ [item]\<rparr>, Waiting item t)"
  | (finished) s out where "invoke W item (shared p) = (s, Inr out)"
      "launch W item p =
        (p\<lparr>shared := s, invoked := invoked p @ [item], settled := settled p @ [(item, out)]\<rparr>,
         Settled item out)"
proof (cases "invoke W item (shared p)")
  case (Pair s r)
  show ?thesis
  proof (cases r)
    case (Inl t)
    with Pair show ?thesis by (intro suspended[of s t]) (simp_all add: launch_def)
  next
    case (Inr out)
    with Pair show ?thesis by (intro finished[of s out]) (simp_all add: launch_def)
  qed
qed

text \<open>One runner passing the head of its loop, seen from the runners around it.\<close>

lemma loopHead_inv:
  assumes inv: "mset (invoked p) + mset (queue p) = mset items"
      "mset (invoked p) = mset (map fst (settled p)) + mset (awaited (a @ b))"
      "mset (rejected (settled p)) = mset (errors p) + mset (rejected (uncounted (a @ b)))"
      "failed p = length (errors p)"
      "length (fulfilled (settled p)) = success p + length (fulfilled (uncounted (a @ b)))"
    and lh: "loopHead W p = (p', rs)"
  shows "mset (invoked p') + mset (queue p') = mset items \<and>
      mset (invoked p') = mset (map fst (settled p')) + mset (awaited (a @ rs @ b)) \<and>
      mset (rejected (settled p')) = mset (errors p') + mset (rejected (uncounted (a @ rs @ b))) \<and>
      failed p' = length (errors p') \<and>
      length (fulfilled (settled p')) = success p' + length (fulfilled (uncounted (a @ rs @ b))) \<and>
      (queue p = [] \<longrightarrow> rs = [] \<and> queue p' = []) \<and>
      (queue p \<noteq> [] \<longrightarrow> length rs = 1)"
proof (cases "queue p")
  case Nil
  with lh have "p' = p" "rs = []" by (simp_all add: loopHead_def)
  with inv Nil show ?thesis by simp
next
  case (Cons item rest)
  let ?q = "p\<lparr>queue := rest\<rparr>"
  show ?thesis
  proof (cases rule: launch_cases[of W item ?q])
    case (suspended s t)
    with lh Cons have "p' = ?q\<lparr>shared := s, invoked := invoked ?q @ [item]\<rparr>" "rs = [Waiting item t]"
      by (simp_all add: loopHead_def)
    with inv Cons show ?thesis by simp
  next
    case (finished s out)
    with lh Cons have p': "p' = ?q\<lparr>shared := s, invoked := invoked ?q @ [item],
        settled := settled ?q @ [(item, out)]\<rparr>" "rs = [Settled item out]"
      by (simp_all add: loopHead_def)
    with inv Cons show ?thesis by (cases out) simp_all
  qed
qed


lemma loopHead_runners: "loopHead W p = (p', rs) \<Longrightarrow> runners p' = runners p"
  by (cases "queue p"; cases rule: launch_cases[of W "hd (queue p)" "p\<lparr>queue := tl (queue p)\<rparr>"])
     (auto simp: loopHead_def)

lemma record_result_fields [simp]:
  "queue (record_result x out p) = queue p"
  "runners (record_result x out p) = runners p"
  "invoked (record_result x out p) = invoked p"
  "settled (record_result x out p) = settled p"
  "shared (record_result x out p) = shared p"
  by (cases out; simp add: record_result_def)+

lemma poolInvI:
  assumes "mset (invoked p) + mset (queue p) = mset items"
    and "mset (invoked p) = mset (map fst (settled p)) + mset (awaited (runners p))"
    and "mset (rejected (settled p)) = mset (errors p) + mset (rejected (uncounted (runners p)))"
    and "failed p = length (errors p)"
    and "length (fulfilled (settled p)) = success p + length (fulfilled (uncounted (runners p)))"
    and "length (runners p) + k \<le> n"
    and "length (runners p) + k < n \<longrightarrow> queue p = []"
  shows "poolInv items n k p"
  using assms unfolding poolInv_def by blast

lemma poolInvD:
  assumes "poolInv items n k p"
  shows "mset (invoked p) + mset (queue p) = mset items"
    and "mset (invoked p) = mset (map fst (settled p)) + mset (awaited (runners p))"
    and "mset (rejected (settled p)) = mset (errors p) + mset (rejected (uncounted (runners p)))"
    and "failed p = length (errors p)"
    and "length (fulfilled (settled p)) = success p + length (fulfilled (uncounted (runners p)))"
    and "length (runners p) + k \<le> n"
    and "length (runners p) + k < n \<longrightarrow> queue p = []"
  using assms unfolding poolInv_def by blast+

lemma runners_at:
  assumes "i < length (runners p)"
  obtains a r b where "runners p = a @ r # b" "length a = i"
proof
  show "runners p = take i (runners p) @ runners p ! i # drop (Suc i) (runners p)"
    using assms by (simp add: id_take_nth_drop)
  show "length (take i (runners p)) = i" using assms by simp
qed

lemma stepRunner_at:
  assumes "runners p = a @ r # b" and "length a = i"
  shows "stepRunner W i p =
     (case r of
        Waiting item t \<Rightarrow>
          (case resume W t (shared p) of
             (s, Inl t') \<Rightarrow> p\<lparr>shared := s, runners := a @ [Waiting item t'] @ b\<rparr>
           | (s, Inr out) \<Rightarrow>
               p\<lparr>shared := s, settled := settled p @ [(item, out)],
                 runners := a @ [Settled item out] @ b\<rparr>)
      | Settled item out \<Rightarrow>
          (case loopHead W (record_result item out p) of
             (p', rs) \<Rightarrow> p'\<lparr>runners := a @ rs @ b\<rparr>))"
  using assms by (simp add: stepRunner_def Let_def nth_append)

lemma stepRunner_poolInv:
  assumes inv: "poolInv items n 0 p" and i: "i < length (runners p)"
  shows "poolInv items n 0 (stepRunner W i p)"
proof -
  from i obtain a r b where rs: "runners p = a @ r # b" and la: "length a = i"
    by (rule runners_at)
  note st = stepRunner_at[OF rs la, of W]
  from inv[unfolded poolInv_def rs]
  have A: "mset (invoked p) + mset (queue p) = mset items"
    and B: "mset (invoked p) = mset (map fst (settled p)) + mset (awaited (a @ r # b))"
    and C: "mset (rejected (settled p)) = mset (errors p) + mset (rejected (uncounted (a @ r # b)))"
    and D: "failed p = length (errors p)"
    and E: "length (fulfilled (settled p)) = success p + length (fulfilled (uncounted (a @ r # b)))"
    by blast+
  from inv have F: "length a + length b + 1 \<le> n" "length a + length b + 1 < n \<longrightarrow> queue p = []"
    by (auto simp: poolInv_def rs)
  show ?thesis
  proof (cases r)
    case (Waiting item t)
    obtain s res where r: "resume W t (shared p) = (s, res)" by (cases "resume W t (shared p)")
    show ?thesis
    proof (cases res)
      case (Inl t')
      with A B C D E F Waiting r show ?thesis by (simp add: st poolInv_def)
    next
      case (Inr out)
      with A B C D E F Waiting r show ?thesis by (cases out) (simp_all add: st poolInv_def)
    qed
  next
    case (Settled item out)
    let ?p1 = "record_result item out p"
    obtain p' rs' where lh: "loopHead W ?p1 = (p', rs')" by (cases "loopHead W ?p1")
    have "mset (invoked ?p1) + mset (queue ?p1) = mset items" using A by simp
    moreover have "mset (invoked ?p1) = mset (map fst (settled ?p1)) + mset (awaited (a @ b))"
      using B Settled by simp
    moreover have "mset (rejected (settled ?p1)) = mset (errors ?p1) + mset (rejected (uncounted (a @ b)))"
      using C Settled by (cases out) (simp_all add: record_result_def)
    moreover have "failed ?p1 = length (errors ?p1)"
      using D by (cases out) (simp_all add: record_result_def)
    moreover have "length (fulfilled (settled ?p1)) = success ?p1 + length (fulfilled (uncounted (a @ b)))"
      using E Settled by (cases out) (simp_all add: record_result_def)
    ultimately have R: "mset (invoked p') + mset (queue p') = mset items \<and>
      mset (invoked p') = mset (map fst (settled p')) + mset (awaited (a @ rs' @ b)) \<and>
      mset (rejected (settled p')) = mset (errors p') + mset (rejected (uncounted (a @ rs' @ b))) \<and>
      failed p' = length (errors p') \<and>
      length (fulfilled (settled p')) = success p' + length (fulfilled (uncounted (a @ rs' @ b))) \<and>
      (queue ?p1 = [] \<longrightarrow> rs' = [] \<and> queue p' = []) \<and>
      (queue ?p1 \<noteq> [] \<longrightarrow> length rs' = 1)"
      using lh by (rule loopHead_inv)
    have L: "length (a @ rs' @ b) \<le> n \<and> (length (a @ rs' @ b) < n \<longrightarrow> queue p' = [])"
      using R F by (cases "queue p = []") auto
    let ?P = "p'\<lparr>runners := a @ rs' @ b\<rparr>"
    have eq: "stepRunner W i p = ?P" using Settled lh by (simp add: st)
    have sel: "invoked ?P = invoked p'" "queue ?P = queue p'" "settled ?P = settled p'"
      "errors ?P = errors p'" "failed ?P = failed p'" "success ?P = success p'"
      "runners ?P = a @ rs' @ b"
      by simp_all
    show ?thesis unfolding eq
    proof (rule poolInvI)
      show "mset (invoked ?P) + mset (queue ?P) = mset items" using conjunct1[OF R] by simp
      show "mset (invoked ?P) = mset (map fst (settled ?P)) + mset (awaited (runners ?P))"
        using conjunct1[OF conjunct2[OF R]] by simp
      show "mset (rejected (settled ?P)) = mset (errors ?P) + mset (rejected (uncounted (runners ?P)))"
        using conjunct1[OF conjunct2[OF conjunct2[OF R]]] by simp
      show "failed ?P = length (errors ?P)"
        using conjunct1[OF conjunct2[OF conjunct2[OF conjunct2[OF R]]]] by simp
      show "length (fulfilled (settled ?P)) = success ?P + length (fulfilled (uncounted (runners ?P)))"
        using conjunct1[OF conjunct2[OF conjunct2[OF conjunct2[OF conjunct2[OF R]]]]] by simp
      show "length (runners ?P) + 0 \<le> n" using L by simp
      show "length (runners ?P) + 0 < n \<longrightarrow> queue ?P = []" using L by simp
    qed
  qed
qed


lemma startRunners_poolInv:
  "poolInv items n k p \<Longrightarrow> poolInv items n 0 (startRunners W k p)"
proof (induction k arbitrary: p)
  case 0
  then show ?case by simp
next
  case (Suc k)
  obtain p' rs' where lh: "loopHead W p = (p', rs')" by (cases "loopHead W p")
  have rp: "runners p' = runners p" using lh by (rule loopHead_runners)
  note D = poolInvD[OF Suc.prems]
  have "mset (invoked p) + mset (queue p) = mset items" by (rule D(1))
  moreover have "mset (invoked p) = mset (map fst (settled p)) + mset (awaited (runners p @ []))"
    using D(2) by simp
  moreover have "mset (rejected (settled p)) = mset (errors p) + mset (rejected (uncounted (runners p @ [])))"
    using D(3) by simp
  moreover have "failed p = length (errors p)" by (rule D(4))
  moreover have "length (fulfilled (settled p)) = success p + length (fulfilled (uncounted (runners p @ [])))"
    using D(5) by simp
  ultimately have R: "mset (invoked p') + mset (queue p') = mset items \<and>
      mset (invoked p') = mset (map fst (settled p')) + mset (awaited (runners p @ rs' @ [])) \<and>
      mset (rejected (settled p')) = mset (errors p') + mset (rejected (uncounted (runners p @ rs' @ []))) \<and>
      failed p' = length (errors p') \<and>
      length (fulfilled (settled p')) = success p' + length (fulfilled (uncounted (runners p @ rs' @ []))) \<and>
      (queue p = [] \<longrightarrow> rs' = [] \<and> queue p' = []) \<and>
      (queue p \<noteq> [] \<longrightarrow> length rs' = 1)"
    using lh by (rule loopHead_inv)
  have F: "length (runners p) + Suc k \<le> n"
      "length (runners p) + Suc k < n \<longrightarrow> queue p = []"
    by (rule D(6), rule D(7))
  have L: "length (runners p @ rs') + k \<le> n \<and>
           (length (runners p @ rs') + k < n \<longrightarrow> queue p' = [])"
    using R F by (cases "queue p = []") auto
  let ?P = "p'\<lparr>runners := runners p' @ rs'\<rparr>"
  have sel: "invoked ?P = invoked p'" "queue ?P = queue p'" "settled ?P = settled p'"
      "errors ?P = errors p'" "failed ?P = failed p'" "success ?P = success p'"
      "runners ?P = runners p @ rs'"
    by (simp_all add: rp)
  have "poolInv items n k ?P"
  proof (rule poolInvI)
    show "mset (invoked ?P) + mset (queue ?P) = mset items" using conjunct1[OF R] by simp
    show "mset (invoked ?P) = mset (map fst (settled ?P)) + mset (awaited (runners ?P))"
      using conjunct1[OF conjunct2[OF R]] by (simp add: rp)
    show "mset (rejected (settled ?P)) = mset (errors ?P) + mset (rejected (uncounted (runners ?P)))"
      using conjunct1[OF conjunct2[OF conjunct2[OF R]]] by (simp add: rp)
    show "failed ?P = length (errors ?P)"
        using conjunct1[OF conjunct2[OF conjunct2[OF conjunct2[OF R]]]] by simp
    show "length (fulfilled (settled ?P)) = success ?P + length (fulfilled (uncounted (runners ?P)))"
      using conjunct1[OF conjunct2[OF conjunct2[OF conjunct2[OF conjunct2[OF R]]]]] by (simp add: rp)
    show "length (runners ?P) + k \<le> n" using L by (simp add: rp)
    show "length (runners ?P) + k < n \<longrightarrow> queue ?P = []" using L by (simp add: rp)
  qed
  then have "poolInv items n 0 (startRunners W k ?P)" by (rule Suc.IH)
  then show ?case by (simp add: lh)
qed

lemma initialPool_poolInv: "poolInv items n n (initialPool items s)"
  by (simp add: poolInv_def initialPool_def)

lemma loopHead_cost:
  assumes "settles W rank bound" and "loopHead W p = (p', rs)"
  shows "sum_list (map (runnerCost rank) rs) + length (queue p') * (bound + 3)
         \<le> length (queue p) * (bound + 3)"
proof (cases "queue p")
  case Nil
  with assms(2) show ?thesis by (simp add: loopHead_def)
next
  case (Cons item rest)
  show ?thesis
  proof (cases rule: launch_cases[of W item "p\<lparr>queue := rest\<rparr>"])
    case (suspended s t)
    then have "rank t \<le> bound" using assms(1) by (auto simp: settles_def)
    with suspended assms(2) Cons show ?thesis by (auto simp: loopHead_def runnerCost_def)
  next
    case (finished s out)
    with assms(2) Cons show ?thesis by (auto simp: loopHead_def runnerCost_def)
  qed
qed

lemma stepRunner_cost:
  assumes w: "settles W rank bound" and i: "i < length (runners p)"
  shows "poolCost rank bound (stepRunner W i p) < poolCost rank bound p"
proof -
  from i obtain a r b where rs: "runners p = a @ r # b" and la: "length a = i"
    by (rule runners_at)
  note st = stepRunner_at[OF rs la, of W]
  show ?thesis
  proof (cases r)
    case (Waiting item t)
    obtain s res where r: "resume W t (shared p) = (s, res)" by (cases "resume W t (shared p)")
    show ?thesis
    proof (cases res)
      case (Inl t')
      with r have "rank t' < rank t" using w by (auto simp: settles_def)
      with Inl r Waiting show ?thesis by (simp add: st poolCost_def rs runnerCost_def)
    next
      case (Inr out)
      with r Waiting show ?thesis by (simp add: st poolCost_def rs runnerCost_def)
    qed
  next
    case (Settled item out)
    let ?p1 = "record_result item out p"
    obtain p' rs' where lh: "loopHead W ?p1 = (p', rs')" by (cases "loopHead W ?p1")
    have "sum_list (map (runnerCost rank) rs') + length (queue p') * (bound + 3)
         \<le> length (queue ?p1) * (bound + 3)"
      using w lh by (rule loopHead_cost)
    with Settled lh show ?thesis by (simp add: st poolCost_def rs runnerCost_def)
  qed
qed

text \<open>A property that every step keeps holds when the pool has run, and the pool does run
  to its end when the worker settles.\<close>

lemma runPool_invariant:
  assumes w: "settles W rank bound"
    and step: "\<And>p i. I p \<Longrightarrow> i < length (runners p) \<Longrightarrow> I (stepRunner W i p)"
    and init: "I p"
  shows "\<exists>p'. runPool W sched k p = Some p' \<and> I p' \<and> runners p' = []"
  using init
proof (induction "poolCost rank bound p" arbitrary: p k rule: less_induct)
  case less
  show ?case
  proof (cases "runners p = []")
    case True
    with less.prems show ?thesis by (subst runPool.simps) simp
  next
    case False
    let ?i = "sched k mod length (runners p)"
    have i: "?i < length (runners p)" using False by simp
    have "poolCost rank bound (stepRunner W ?i p) < poolCost rank bound p"
      using w i by (rule stepRunner_cost)
    moreover have "I (stepRunner W ?i p)" using less.prems i by (rule step)
    ultimately obtain p' where
      "runPool W sched (Suc k) (stepRunner W ?i p) = Some p' \<and> I p' \<and> runners p' = []"
      using less.hyps by blast
    with False show ?thesis by (subst runPool.simps) simp
  qed
qed

lemma runPool_partial_aux:
  assumes run: "runPool W sched k p = Some p'"
  shows "(\<forall>p i. I p \<longrightarrow> i < length (runners p) \<longrightarrow> I (stepRunner W i p)) \<longrightarrow> I p \<longrightarrow>
         I p' \<and> runners p' = []"
proof (rule runPool.raw_induct[where P = "\<lambda>W sched k p y.
      (\<forall>p i. I p \<longrightarrow> i < length (runners p) \<longrightarrow> I (stepRunner W i p)) \<longrightarrow> I p \<longrightarrow>
      I y \<and> runners y = []", OF _ run])
  fix rp :: "('a, 'b, 'c) worker \<Rightarrow> (nat \<Rightarrow> nat) \<Rightarrow> nat \<Rightarrow> ('a, 'b, 'c) pool \<Rightarrow> ('a, 'b, 'c) pool option"
  fix W sched k p y
  assume IH: "\<And>W sched k p y. rp W sched k p = Some y \<Longrightarrow>
      (\<forall>p i. I p \<longrightarrow> i < length (runners p) \<longrightarrow> I (stepRunner W i p)) \<longrightarrow> I p \<longrightarrow>
      I y \<and> runners y = []"
    and eq: "(if runners p = [] then Some p
              else rp W sched (Suc k) (stepRunner W (sched k mod length (runners p)) p)) = Some y"
  show "(\<forall>p i. I p \<longrightarrow> i < length (runners p) \<longrightarrow> I (stepRunner W i p)) \<longrightarrow> I p \<longrightarrow>
        I y \<and> runners y = []"
  proof (intro impI)
    assume step: "\<forall>p i. I p \<longrightarrow> i < length (runners p) \<longrightarrow> I (stepRunner W i p)" and ip: "I p"
    show "I y \<and> runners y = []"
    proof (cases "runners p = []")
      case True
      with eq ip show ?thesis by simp
    next
      case False
      let ?i = "sched k mod length (runners p)"
      have "?i < length (runners p)" using False by simp
      with step ip have "I (stepRunner W ?i p)" by blast
      moreover from eq False have "rp W sched (Suc k) (stepRunner W ?i p) = Some y" by simp
      ultimately show ?thesis using IH step by blast
    qed
  qed
qed

lemma runPool_partial:
  assumes "runPool W sched k p = Some p'" and "I p"
    and "\<And>p i. I p \<Longrightarrow> i < length (runners p) \<Longrightarrow> I (stepRunner W i p)"
  shows "I p'" and "runners p' = []"
proof -
  have "(\<forall>p i. I p \<longrightarrow> i < length (runners p) \<longrightarrow> I (stepRunner W i p))"
    using assms(3) by blast
  with runPool_partial_aux[where I = I, OF assms(1)] assms(2)
  have "I p' \<and> runners p' = []" by blast
  then show "I p'" and "runners p' = []" by blast+
qed






section \<open>Properties kept by the steps of a worker\<close>

text \<open>A property that the worker keeps holds, of the shared state alone, when \<open>mapLimit\<close>
  has returned; and \<open>mapLimit\<close> returns with it when the worker settles.\<close>

lemma tasks_simps [simp]:
  "tasks [] = []"
  "tasks (Waiting item t # rs) = (item, t) # tasks rs"
  "tasks (Settled item out # rs) = tasks rs"
  "tasks (a @ b) = tasks a @ tasks b"
  by (simp_all add: tasks_def)

lemma keepsD:
  assumes "keeps W Q"
  shows "Q s (a # q) H \<Longrightarrow> invoke W a s = (s', Inl t) \<Longrightarrow> Q s' q (add_mset (a, t) H)"
    and "Q s (a # q) H \<Longrightarrow> invoke W a s = (s', Inr out) \<Longrightarrow> Q s' q H"
    and "Q s q (add_mset (a, t) H) \<Longrightarrow> resume W t s = (s', Inl t') \<Longrightarrow>
          Q s' q (add_mset (a, t') H)"
    and "Q s q (add_mset (a, t) H) \<Longrightarrow> resume W t s = (s', Inr out) \<Longrightarrow> Q s' q H"
proof -
  note K = assms[unfolded keeps_def]
  have A: "\<forall>s q H a s' t. Q s (a # q) H \<and> invoke W a s = (s', Inl t) \<longrightarrow> Q s' q (add_mset (a, t) H)"
    by (rule conjunct1[OF K])
  have B: "\<forall>s q H a s' out. Q s (a # q) H \<and> invoke W a s = (s', Inr out) \<longrightarrow> Q s' q H"
    by (rule conjunct1[OF conjunct2[OF K]])
  have C: "\<forall>s q H a t s' t'. Q s q (add_mset (a, t) H) \<and> resume W t s = (s', Inl t') \<longrightarrow>
          Q s' q (add_mset (a, t') H)"
    by (rule conjunct1[OF conjunct2[OF conjunct2[OF K]]])
  have D: "\<forall>s q H a t s' out. Q s q (add_mset (a, t) H) \<and> resume W t s = (s', Inr out) \<longrightarrow> Q s' q H"
    by (rule conjunct2[OF conjunct2[OF conjunct2[OF K]]])
  show "Q s (a # q) H \<Longrightarrow> invoke W a s = (s', Inl t) \<Longrightarrow> Q s' q (add_mset (a, t) H)"
    using A by blast
  show "Q s (a # q) H \<Longrightarrow> invoke W a s = (s', Inr out) \<Longrightarrow> Q s' q H"
    using B by blast
  show "Q s q (add_mset (a, t) H) \<Longrightarrow> resume W t s = (s', Inl t') \<Longrightarrow> Q s' q (add_mset (a, t') H)"
    using C by blast
  show "Q s q (add_mset (a, t) H) \<Longrightarrow> resume W t s = (s', Inr out) \<Longrightarrow> Q s' q H"
    using D by blast
qed

lemma loopHead_keeps:
  assumes k: "keeps W Q" and q: "Q (shared p) (queue p) (mset (tasks (a @ b)))"
    and lh: "loopHead W p = (p', rs)"
  shows "Q (shared p') (queue p') (mset (tasks (a @ rs @ b)))"
proof (cases "queue p")
  case Nil
  with lh q show ?thesis by (simp add: loopHead_def)
next
  case (Cons item rest)
  show ?thesis
  proof (cases rule: launch_cases[of W item "p\<lparr>queue := rest\<rparr>"])
    case (suspended s t)
    from q Cons have "Q (shared p) (item # rest) (mset (tasks (a @ b)))" by simp
    moreover from suspended have "invoke W item (shared p) = (s, Inl t)" by simp
    ultimately have "Q s rest (add_mset (item, t) (mset (tasks (a @ b))))" by (rule keepsD(1)[OF k])
    with suspended lh Cons show ?thesis by (auto simp: loopHead_def)
  next
    case (finished s out)
    from q Cons have "Q (shared p) (item # rest) (mset (tasks (a @ b)))" by simp
    moreover from finished have "invoke W item (shared p) = (s, Inr out)" by simp
    ultimately have "Q s rest (mset (tasks (a @ b)))" by (rule keepsD(2)[OF k])
    with finished lh Cons show ?thesis by (auto simp: loopHead_def)
  qed
qed

lemma stepRunner_keeps:
  assumes k: "keeps W Q" and q: "Q (shared p) (queue p) (mset (tasks (runners p)))"
    and i: "i < length (runners p)"
  shows "Q (shared (stepRunner W i p)) (queue (stepRunner W i p)) (mset (tasks (runners (stepRunner W i p))))"
proof -
  from i obtain a r b where rs: "runners p = a @ r # b" and la: "length a = i"
    by (rule runners_at)
  note st = stepRunner_at[OF rs la, of W]
  show ?thesis
  proof (cases r)
    case (Waiting item t)
    obtain s res where r: "resume W t (shared p) = (s, res)" by (cases "resume W t (shared p)")
    from q rs Waiting have q': "Q (shared p) (queue p) (add_mset (item, t) (mset (tasks (a @ b))))"
      by simp
    show ?thesis
    proof (cases res)
      case (Inl t')
      with r have "resume W t (shared p) = (s, Inl t')" by simp
      with q' have "Q s (queue p) (add_mset (item, t') (mset (tasks (a @ b))))"
        by (rule keepsD(3)[OF k])
      with Inl r Waiting show ?thesis by (simp add: st)
    next
      case (Inr out)
      with r have "resume W t (shared p) = (s, Inr out)" by simp
      with q' have "Q s (queue p) (mset (tasks (a @ b)))"
        by (rule keepsD(4)[OF k])
      with Inr r Waiting show ?thesis by (simp add: st)
    qed
  next
    case (Settled item out)
    let ?p1 = "record_result item out p"
    obtain p' rs' where lh: "loopHead W ?p1 = (p', rs')" by (cases "loopHead W ?p1")
    have "Q (shared ?p1) (queue ?p1) (mset (tasks (a @ b)))"
      using q rs Settled by (cases out) (simp_all add: record_result_def)
    with k have "Q (shared p') (queue p') (mset (tasks (a @ rs' @ b)))"
      using lh by (rule loopHead_keeps)
    with Settled lh show ?thesis by (simp add: st)
  qed
qed

lemma startRunners_keeps:
  assumes k: "keeps W Q"
  shows "Q (shared p) (queue p) (mset (tasks (runners p))) \<Longrightarrow>
    Q (shared (startRunners W n p)) (queue (startRunners W n p))
      (mset (tasks (runners (startRunners W n p))))"
proof (induction n arbitrary: p)
  case 0
  then show ?case by simp
next
  case (Suc n)
  obtain p' rs' where lh: "loopHead W p = (p', rs')" by (cases "loopHead W p")
  have rp: "runners p' = runners p" using lh by (rule loopHead_runners)
  from Suc.prems have "Q (shared p) (queue p) (mset (tasks (runners p @ [])))" by simp
  with k have "Q (shared p') (queue p') (mset (tasks (runners p @ rs' @ [])))"
    using lh by (rule loopHead_keeps)
  then have "Q (shared (p'\<lparr>runners := runners p' @ rs'\<rparr>)) (queue (p'\<lparr>runners := runners p' @ rs'\<rparr>))
      (mset (tasks (runners (p'\<lparr>runners := runners p' @ rs'\<rparr>))))"
    by (simp add: rp)
  then show ?case using Suc.IH lh by simp
qed

lemma mapLimit_keeps:
  assumes k: "keeps W Q" and run: "mapLimit W sched items limit s = Some p"
    and q: "Q s items {#}" and l: "1 \<le> limit"
  shows "Q (shared p) [] {#}"
proof -
  let ?I = "\<lambda>p. poolInv items (nat limit) 0 p \<and> Q (shared p) (queue p) (mset (tasks (runners p)))"
  let ?p0 = "startRunners W (nat limit) (initialPool items s)"
  have "poolInv items (nat limit) 0 ?p0"
    using initialPool_poolInv by (rule startRunners_poolInv)
  moreover have "Q (shared ?p0) (queue ?p0) (mset (tasks (runners ?p0)))"
    using k by (rule startRunners_keeps) (simp add: initialPool_def q)
  ultimately have i0: "?I ?p0" by simp
  have step: "\<And>p i. ?I p \<Longrightarrow> i < length (runners p) \<Longrightarrow> ?I (stepRunner W i p)"
    using stepRunner_poolInv stepRunner_keeps[OF k] by blast
  from run have r: "runPool W sched 0 ?p0 = Some p" by (simp add: mapLimit_def)
  have "?I p" and fin: "runners p = []"
    using runPool_partial[where I = ?I, OF r i0 step] by blast+
  moreover from \<open>?I p\<close> have "length (runners p) + 0 < nat limit \<longrightarrow> queue p = []"
    using poolInvD(7) by blast
  ultimately show ?thesis using l by simp
qed

lemma mapLimit_keeps_total:
  assumes w: "settles W rank bound" and k: "keeps W Q"
    and q: "Q s items {#}" and l: "1 \<le> limit"
  shows "\<exists>p. mapLimit W sched items limit s = Some p \<and> Q (shared p) [] {#}"
proof -
  let ?I = "\<lambda>p. poolInv items (nat limit) 0 p \<and> Q (shared p) (queue p) (mset (tasks (runners p)))"
  let ?p0 = "startRunners W (nat limit) (initialPool items s)"
  have "poolInv items (nat limit) 0 ?p0"
    using initialPool_poolInv by (rule startRunners_poolInv)
  moreover have "Q (shared ?p0) (queue ?p0) (mset (tasks (runners ?p0)))"
    using k by (rule startRunners_keeps) (simp add: initialPool_def q)
  ultimately have i0: "?I ?p0" by simp
  have step: "\<And>p i. ?I p \<Longrightarrow> i < length (runners p) \<Longrightarrow> ?I (stepRunner W i p)"
    using stepRunner_poolInv stepRunner_keeps[OF k] by blast
  from runPool_invariant[where I = ?I, OF w step i0]
  obtain p where r: "runPool W sched 0 ?p0 = Some p" and ip: "?I p" and fin: "runners p = []"
    by blast
  from ip have "length (runners p) + 0 < nat limit \<longrightarrow> queue p = []"
    using poolInvD(7) by blast
  with fin l have "queue p = []" by simp
  with r ip fin show ?thesis by (auto simp: mapLimit_def)
qed

section \<open>Video widgets\<close>








lemma resume_afterFetch_failed:
  "resume (pageWorker cfg) (AfterFetch u (Inl e)) c =
     (if e = NoError then (c, Inr (Some ''Cannot read properties of undefined''))
      else (c\<lparr>pageErrors := pageErrors c @ [(u, e)]\<rparr>, Inr None))"
  by (simp add: pageWorker_def)




section \<open>The crawl\<close>

text \<open>The steps of the page worker, and what they keep.\<close>

lemma set_pushLinks: "set (pushLinks ls P q) = set q \<union> (set ls - set P)"
  by (induction ls P q rule: pushLinks.induct) auto

lemma distinct_pushLinks: "distinct q \<Longrightarrow> distinct (pushLinks ls P q)"
  by (induction ls P q rule: pushLinks.induct) auto

lemma invoke_cases [consumes 1, case_names processed invalid fetch]:
  assumes "invoke (pageWorker cfg) a s = (s', r)"
  obtains "a \<in> set (processedUrls s)" "s' = s" "r = Inr None"
  | "a \<notin> set (processedUrls s)" "cfg_site cfg a = None" "s' = s" "r = Inr (Some ''Invalid URL'')"
  | net where "a \<notin> set (processedUrls s)" "cfg_site cfg a = Some net"
      "s' = s\<lparr>fetched := fetched s @ [a]\<rparr>"
      "r = Inl (AfterFetch a (outcome (fetchWithRetry net (cfg_retries cfg))))"
  using assms by (auto simp: pageWorker_def split: if_splits option.splits)

lemma resume_cases [consumes 1, case_names failed widgets rendered finished]:
  assumes "resume (pageWorker cfg) t s = (s', r)"
  obtains u e out where "t = AfterFetch u (Inl e)" "processedUrls s' = processedUrls s"
      "urlQueue s' = urlQueue s" "written s' = written s" "r = Inr out"
  | u st html doc n d where "t = AfterFetch u (Inr (st, html, doc))"
      "processedUrls s' = processedUrls s"
      "urlQueue s' = pushLinks (extractInternalLinks (cfg_url cfg) doc (cfg_previewUrl cfg))
          (processedUrls s) (urlQueue s)"
      "written s' = written s" "r = Inl (AfterWidgets u n d)"
  | u st html doc d where "t = AfterFetch u (Inr (st, html, doc))"
      "processedUrls s' = addUrl u (processedUrls s)"
      "urlQueue s' = pushLinks (extractInternalLinks (cfg_url cfg) doc (cfg_previewUrl cfg))
          (processedUrls s) (urlQueue s)"
      "written s' = written s @ [(u, outputPath (cfg_collation cfg) (cfg_outputDir cfg) u, d)]"
      "r = Inr None"
  | u n doc d where "t = AfterWidgets u n doc"
      "processedUrls s' = addUrl u (processedUrls s)"
      "urlQueue s' = urlQueue s"
      "written s' = written s @ [(u, outputPath (cfg_collation cfg) (cfg_outputDir cfg) u, d)]"
      "r = Inr None"
proof (cases t)
  case (AfterFetch u res)
  show ?thesis
  proof (cases res)
    case (Inl e)
    with AfterFetch assms that(1) show ?thesis
      by (auto simp: pageWorker_def split: if_splits)
  next
    case (Inr page)
    obtain st html doc where page: "page = (st, html, doc)" by (cases page)
    show ?thesis
    proof (cases "countMatches ''<video-widget'' html > 0")
      case True
      with AfterFetch Inr page assms that(2) show ?thesis
        by (auto simp: pageWorker_def Let_def)
    next
      case False
      with AfterFetch Inr page assms that(3) show ?thesis
        by (auto simp: pageWorker_def Let_def finishPage_def)
    qed
  qed
next
  case (AfterWidgets u n doc)
  with assms that(4) show ?thesis
    by (auto simp: pageWorker_def finishPage_def)
qed

lemma settles_pageWorker:
  "settles (pageWorker cfg) (\<lambda>t. if widgetsTask t then 0 else 1) 1"
  unfolding settles_def
proof (intro conjI allI impI)
  fix item s s' t assume "invoke (pageWorker cfg) item s = (s', Inl t)"
  then show "(if widgetsTask t then 0 else 1) \<le> (1::nat)" by simp
next
  fix t s s' t' assume "resume (pageWorker cfg) t s = (s', Inl t')"
  then show "(if widgetsTask t' then 0 else 1) < (if widgetsTask t then 0 else (1::nat))"
    by (cases rule: resume_cases) auto
qed


lemma count_fst_zero: "count (image_mset fst H) a = 0 \<longleftrightarrow> a \<notin> fst ` set_mset H"
  by (simp add: count_eq_zero_iff)

lemma onceD:
  assumes "once s pending H"
  shows "distinct (processedUrls s)" "map fst (written s) = processedUrls s"
    "distinct (urlQueue s)" "distinct pending"
    "\<And>x. x \<in># H \<Longrightarrow> count (image_mset fst H) (fst x) = 1"
    "\<And>x. x \<in># H \<Longrightarrow> fst x \<notin> set pending"
    "\<And>x. x \<in># H \<Longrightarrow> taskUrl (snd x) = fst x"
    "\<And>u. u \<in> set pending \<Longrightarrow> u \<notin> set (processedUrls s)"
    "\<And>x. x \<in># H \<Longrightarrow> fst x \<notin> set (processedUrls s)"
  using assms unfolding once_def by auto

lemma onceI:
  assumes "distinct (processedUrls s)" "map fst (written s) = processedUrls s"
    "distinct (urlQueue s)" "distinct pending"
    "\<And>x. x \<in># H \<Longrightarrow> count (image_mset fst H) (fst x) = 1"
    "\<And>x. x \<in># H \<Longrightarrow> fst x \<notin> set pending"
    "\<And>x. x \<in># H \<Longrightarrow> taskUrl (snd x) = fst x"
    "\<And>u. u \<in> set pending \<Longrightarrow> u \<notin> set (processedUrls s)"
    "\<And>x. x \<in># H \<Longrightarrow> fst x \<notin> set (processedUrls s)"
  shows "once s pending H"
  using assms unfolding once_def by auto

lemma once_take:
  assumes o: "once s (a # q) H"
  shows "a \<notin> fst ` set_mset H" "a \<notin> set q" "a \<notin> set (processedUrls s)"
  using onceD[OF o] by auto

lemma once_held:
  assumes o: "once s q (add_mset (a, t) H)"
  shows "a \<notin> fst ` set_mset H" "a \<notin> set q" "a \<notin> set (processedUrls s)" "taskUrl t = a"
proof -
  note D = onceD[OF o]
  have "count (image_mset fst (add_mset (a, t) H)) (fst (a, t)) = 1" by (rule D(5)) simp
  then have "count (image_mset fst H) a = 0" by simp
  then show "a \<notin> fst ` set_mset H" using count_fst_zero[of H a] by blast
  show "a \<notin> set q" using D(6)[of "(a, t)"] by simp
  show "a \<notin> set (processedUrls s)" using D(9)[of "(a, t)"] by simp
  show "taskUrl t = a" using D(7)[of "(a, t)"] by simp
qed

lemma once_drop:
  assumes o: "once s q (add_mset (a, t) H)"
  shows "once s q H"
proof (rule onceI)
  note D = onceD[OF o]
  note h = once_held[OF o]
  show "distinct (processedUrls s)" "map fst (written s) = processedUrls s"
    "distinct (urlQueue s)" "distinct q" by (rule D)+
  fix x assume x: "x \<in># H"
  then have x': "x \<in># add_mset (a, t) H" by simp
  from x h(1) have ne: "fst x \<noteq> a" by auto
  from D(5)[OF x'] ne show "count (image_mset fst H) (fst x) = 1" by simp
  show "fst x \<notin> set q" by (rule D(6)[OF x'])
  show "taskUrl (snd x) = fst x" by (rule D(7)[OF x'])
  show "fst x \<notin> set (processedUrls s)" by (rule D(9)[OF x'])
next
  fix u assume "u \<in> set q"
  then show "u \<notin> set (processedUrls s)" by (rule onceD(8)[OF o])
qed

lemma once_add:
  assumes o: "once s q H" and a: "a \<notin> fst ` set_mset H" "a \<notin> set q" "a \<notin> set (processedUrls s)"
    and t: "taskUrl t = a"
  shows "once s q (add_mset (a, t) H)"
proof (rule onceI)
  note D = onceD[OF o]
  show "distinct (processedUrls s)" "map fst (written s) = processedUrls s"
    "distinct (urlQueue s)" "distinct q" by (rule D)+
  fix x assume x: "x \<in># add_mset (a, t) H"
  have "count (image_mset fst (add_mset (a, t) H)) (fst x) = 1 \<and> fst x \<notin> set q \<and>
        taskUrl (snd x) = fst x \<and> fst x \<notin> set (processedUrls s)"
  proof (cases "x = (a, t)")
    case True
    have "count (image_mset fst H) a = 0" using a(1) count_fst_zero[of H a] by blast
    with True a t show ?thesis by simp
  next
    case False
    with x have xh: "x \<in># H" by simp
    with a(1) have "fst x \<noteq> a" by auto
    with D(5)[OF xh] D(6)[OF xh] D(7)[OF xh] D(9)[OF xh] show ?thesis by simp
  qed
  then show "count (image_mset fst (add_mset (a, t) H)) (fst x) = 1" "fst x \<notin> set q"
    "taskUrl (snd x) = fst x" "fst x \<notin> set (processedUrls s)" by blast+
next
  fix u assume "u \<in> set q"
  then show "u \<notin> set (processedUrls s)" by (rule onceD(8)[OF o])
qed

lemma once_state:
  assumes o: "once s q H" and "processedUrls s' = processedUrls s" "written s' = written s"
    and "distinct (urlQueue s')"
  shows "once s' q H"
  using assms unfolding once_def by simp

lemma once_render:
  assumes o: "once s q H" and a: "a \<notin> fst ` set_mset H" "a \<notin> set q" "a \<notin> set (processedUrls s)"
    and p: "processedUrls s' = addUrl a (processedUrls s)"
    and w: "written s' = written s @ [(a, f, d)]"
    and u: "distinct (urlQueue s')"
  shows "once s' q H"
proof (rule onceI)
  note D = onceD[OF o]
  from a(3) p have p': "processedUrls s' = processedUrls s @ [a]" by (simp add: addUrl_def)
  show "distinct (processedUrls s')" using D(1) a(3) by (simp add: p')
  show "map fst (written s') = processedUrls s'" using D(2) by (simp add: p' w)
  show "distinct (urlQueue s')" by (rule u)
  show "distinct q" by (rule D(4))
  fix x assume x: "x \<in># H"
  show "count (image_mset fst H) (fst x) = 1" by (rule D(5)[OF x])
  show "fst x \<notin> set q" by (rule D(6)[OF x])
  show "taskUrl (snd x) = fst x" by (rule D(7)[OF x])
  show "fst x \<notin> set (processedUrls s')" using D(9)[OF x] x a(1) by (auto simp: p')
next
  fix u assume "u \<in> set q"
  with a(2) onceD(8)[OF o] a(3) p show "u \<notin> set (processedUrls s')"
    by (auto simp: addUrl_def)
qed

lemma once_pop:
  assumes o: "once s (a # q) H"
  shows "once s q H"
  using o unfolding once_def by auto

lemma keeps_once: "keeps (pageWorker cfg) once"
  unfolding keeps_def
proof (intro conjI allI impI; elim conjE)
  fix s q H a s' t
  assume o: "once s (a # q) H" and i: "invoke (pageWorker cfg) a s = (s', Inl t)"
  note h = once_take[OF o]
  from i show "once s' q (add_mset (a, t) H)"
  proof (cases rule: invoke_cases)
    case (fetch net)
    have "once s' q H" using once_pop[OF o] by (rule once_state) (simp_all add: fetch onceD(3)[OF o])
    moreover have "a \<notin> set (processedUrls s')" using h(3) by (simp add: fetch)
    moreover have "taskUrl t = a" using fetch by simp
    ultimately show ?thesis using h(1,2) by (intro once_add)
  qed simp_all
next
  fix s q H a s' out
  assume o: "once s (a # q) H" and i: "invoke (pageWorker cfg) a s = (s', Inr out)"
  from i show "once s' q H"
    by (cases rule: invoke_cases) (simp_all add: once_pop[OF o])
next
  fix s q H a t s' t'
  assume o: "once s q (add_mset (a, t) H)" and r: "resume (pageWorker cfg) t s = (s', Inl t')"
  note h = once_held[OF o]
  from r show "once s' q (add_mset (a, t') H)"
  proof (cases rule: resume_cases)
    case (widgets u st html doc n d)
    have "once s' q H" using once_drop[OF o]
      by (rule once_state) (simp_all add: widgets distinct_pushLinks onceD(3)[OF o])
    moreover have "taskUrl t' = a" using h(4) widgets by simp
    moreover have "a \<notin> set (processedUrls s')" using h(3) by (simp add: widgets)
    ultimately show ?thesis using h(1,2) by (intro once_add)
  qed simp_all
next
  fix s q H a t s' out
  assume o: "once s q (add_mset (a, t) H)" and r: "resume (pageWorker cfg) t s = (s', Inr out)"
  note h = once_held[OF o]
  from r show "once s' q H"
  proof (cases rule: resume_cases)
    case (failed u e out')
    show ?thesis using once_drop[OF o]
      by (rule once_state) (simp_all add: failed onceD(3)[OF o])
  next
    case (rendered u st html doc d)
    with h(4) have ua: "u = a" by simp
    show ?thesis using once_drop[OF o] h(1,2,3)
      by (rule once_render) (simp_all add: rendered ua distinct_pushLinks onceD(3)[OF o])
  next
    case (finished u n doc d)
    with h(4) have ua: "u = a" by simp
    show ?thesis using once_drop[OF o] h(1,2,3)
      by (rule once_render) (simp_all add: finished ua onceD(3)[OF o])
  qed simp_all
qed

lemma addUrl_set: "set (addUrl u us) = insert u (set us)"
  by (auto simp: addUrl_def)

lemma keeps_advances: "keeps (pageWorker cfg) (advances c0)"
  unfolding keeps_def
proof (intro conjI allI impI; elim conjE)
  fix s q H a s' t
  assume o: "advances c0 s (a # q) H" and i: "invoke (pageWorker cfg) a s = (s', Inl t)"
  from i show "advances c0 s' q (add_mset (a, t) H)"
  proof (cases rule: invoke_cases)
    case (fetch net)
    with o show ?thesis unfolding advances_def by auto
  qed simp_all
next
  fix s q H a s' out
  assume o: "advances c0 s (a # q) H" and i: "invoke (pageWorker cfg) a s = (s', Inr out)"
  from i o show "advances c0 s' q H"
    by (cases rule: invoke_cases) (simp_all add: advances_def)
next
  fix s q H a t s' t'
  assume o: "advances c0 s q (add_mset (a, t) H)" and r: "resume (pageWorker cfg) t s = (s', Inl t')"
  from r show "advances c0 s' q (add_mset (a, t') H)"
  proof (cases rule: resume_cases)
    case (widgets u st html doc n d)
    with o show ?thesis unfolding advances_def by auto
  qed simp_all
next
  fix s q H a t s' out
  assume o: "advances c0 s q (add_mset (a, t) H)" and r: "resume (pageWorker cfg) t s = (s', Inr out)"
  from r show "advances c0 s' q H"
  proof (cases rule: resume_cases)
    case (failed u e out')
    with o show ?thesis unfolding advances_def by auto
  next
    case (rendered u st html doc d)
    with o show ?thesis unfolding advances_def by (auto simp: addUrl_set)
  next
    case (finished u n doc d)
    with o show ?thesis unfolding advances_def by (auto simp: addUrl_set)
  qed simp_all
qed

end
